theory Spec2Isabelle
  imports Complex_Main "HOL-Library.Word"
begin

unbundle bit_operations_syntax

section \<open>JavaScript values\<close>

text \<open>
  A JavaScript string is a sequence of UTF-16 code units; it is modelled as the list of
  their numeric values. \<open>js\<close> turns an ASCII literal into such a list. Exceptions of the
  platform are values of \<open>js_error\<close>; a function that can throw returns a sum with the
  error on the left.
\<close>

type_synonym jsstring = "nat list"

definition js :: "string \<Rightarrow> jsstring" where
  "js s = map of_char s"

datatype js_error =
  InvalidCharacterError | RangeError | NotSupportedError | InvalidStateError
  | SyntaxError | TypeError

section \<open>The platform's base64 functions\<close>

text \<open>
  \<open>btoa\<close> and \<open>atob\<close> are browser built-ins called by \<open>encode\<close> and \<open>decode\<close> of
  App.tsx. They are modelled after the HTML standard: \<open>btoa\<close> throws when a code unit
  exceeds 255 and otherwise emits the RFC 4648 encoding with padding; \<open>atob\<close> is the
  forgiving decoder (ASCII whitespace removed, one or two trailing \<open>=\<close> dropped when the
  length is a multiple of four, failure on a length of 1 modulo 4 or on a character
  outside the alphabet, left-over bits discarded).
\<close>

definition b64_char :: "nat \<Rightarrow> nat" where
  "b64_char n =
     (if n < 26 then 65 + n
      else if n < 52 then 97 + (n - 26)
      else if n < 62 then 48 + (n - 52)
      else if n = 62 then 43 else 47)"

definition b64_index :: "nat \<Rightarrow> nat option" where
  "b64_index c =
     (if 65 \<le> c \<and> c \<le> 90 then Some (c - 65)
      else if 97 \<le> c \<and> c \<le> 122 then Some (c - 97 + 26)
      else if 48 \<le> c \<and> c \<le> 57 then Some (c - 48 + 52)
      else if c = 43 then Some 62
      else if c = 47 then Some 63
      else None)"

fun b64_groups :: "nat list \<Rightarrow> nat list" where
  "b64_groups (a # b # c # rest) =
     [a div 4, (a mod 4) * 16 + b div 16, (b mod 16) * 4 + c div 64, c mod 64]
       @ b64_groups rest"
| "b64_groups [a, b] = [a div 4, (a mod 4) * 16 + b div 16, (b mod 16) * 4]"
| "b64_groups [a] = [a div 4, (a mod 4) * 16]"
| "b64_groups [] = []"

definition btoa :: "jsstring \<Rightarrow> js_error + jsstring" where
  "btoa s =
     (if list_ex (\<lambda>c. 255 < c) s then Inl InvalidCharacterError
      else Inr (map b64_char (b64_groups s) @ replicate ((3 - length s mod 3) mod 3) 61))"

definition ascii_whitespace :: "nat \<Rightarrow> bool" where
  "ascii_whitespace c = (c = 9 \<or> c = 10 \<or> c = 12 \<or> c = 13 \<or> c = 32)"

definition drop_trailing_eq :: "jsstring \<Rightarrow> jsstring" where
  "drop_trailing_eq s = (if s \<noteq> [] \<and> last s = 61 then butlast s else s)"

definition strip_padding :: "jsstring \<Rightarrow> jsstring" where
  "strip_padding s =
     (if length s mod 4 = 0 then drop_trailing_eq (drop_trailing_eq s) else s)"

fun b64_bytes :: "nat list \<Rightarrow> nat list" where
  "b64_bytes (s1 # s2 # s3 # s4 # rest) =
     [s1 * 4 + s2 div 16, (s2 mod 16) * 16 + s3 div 4, (s3 mod 4) * 64 + s4]
       @ b64_bytes rest"
| "b64_bytes [s1, s2, s3] = [s1 * 4 + s2 div 16, (s2 mod 16) * 16 + s3 div 4]"
| "b64_bytes [s1, s2] = [s1 * 4 + s2 div 16]"
| "b64_bytes [s1] = []"
| "b64_bytes [] = []"

definition atob :: "jsstring \<Rightarrow> js_error + jsstring" where
  "atob s =
     (let d = strip_padding (filter (\<lambda>c. \<not> ascii_whitespace c) s) in
      if length d mod 4 = 1 then Inl InvalidCharacterError
      else case those (map b64_index d) of
             None \<Rightarrow> Inl InvalidCharacterError
           | Some sextets \<Rightarrow> Inr (b64_bytes sextets))"

section \<open>Shared audio utilities (App.tsx, lines 21 to 56)\<close>

text \<open>
  \<open>decode\<close> copies the code units of \<open>atob(base64)\<close> into a \<open>Uint8Array\<close> (a store
  into it keeps the value modulo 256); \<open>encode\<close> builds the binary string with
  \<open>String.fromCharCode\<close> of each byte and passes it to \<open>btoa\<close>.
\<close>

definition decode :: "jsstring \<Rightarrow> js_error + 8 word list" where
  "decode base64 =
     (case atob base64 of
        Inl e \<Rightarrow> Inl e
      | Inr binaryString \<Rightarrow> Inr (map of_nat binaryString))"

definition encode :: "8 word list \<Rightarrow> js_error + jsstring" where
  "encode bytes = btoa (map unat bytes)"

text \<open>
  A JavaScript number stored into an \<open>Int16Array\<close> is truncated towards zero and
  reduced modulo \<open>2^16\<close>. Audio samples are single-precision floats; multiplying one by
  32768 and dividing a 16-bit integer by 32768 are exact in double precision, so samples
  are modelled by their real values.
\<close>

definition js_trunc :: "real \<Rightarrow> int" where
  "js_trunc y = (if 0 \<le> y then \<lfloor>y\<rfloor> else \<lceil>y\<rceil>)"

definition to_int16 :: "real \<Rightarrow> 16 word" where
  "to_int16 y = word_of_int (js_trunc y)"

text \<open>
  \<open>new Uint8Array(int16.buffer)\<close> and \<open>new Int16Array(data.buffer)\<close> are two views of the
  same bytes, least significant byte first (the byte order of the platform; both views
  use the same one). The second throws a \<open>RangeError\<close> when the
  byte length is odd.
\<close>

definition int16_bytes :: "16 word \<Rightarrow> 8 word list" where
  "int16_bytes w = [ucast w, ucast (drop_bit 8 w)]"

definition Uint8Array_of_Int16Array :: "16 word list \<Rightarrow> 8 word list" where
  "Uint8Array_of_Int16Array ws = concat (map int16_bytes ws)"

fun int16s_of_bytes :: "8 word list \<Rightarrow> 16 word list" where
  "int16s_of_bytes (lo # hi # rest) =
     (ucast lo OR push_bit 8 (ucast hi)) # int16s_of_bytes rest"
| "int16s_of_bytes [b] = []"
| "int16s_of_bytes [] = []"

definition Int16Array_of_Uint8Array :: "8 word list \<Rightarrow> js_error + 16 word list" where
  "Int16Array_of_Uint8Array data =
     (if odd (length data) then Inl RangeError else Inr (int16s_of_bytes data))"

text \<open>
  An \<open>AudioBuffer\<close>. \<open>createBuffer\<close> converts the requested length to an unsigned
  integer (dropping a fraction) and throws \<open>NotSupportedError\<close> when the channel count,
  the length or the sample rate is zero.
\<close>

record audio_buffer =
  channelData :: "real list list"
  buf_length :: nat
  buf_sampleRate :: real

definition duration :: "audio_buffer \<Rightarrow> real" where
  "duration b = real (buf_length b) / buf_sampleRate b"

definition createBuffer :: "nat \<Rightarrow> real \<Rightarrow> real \<Rightarrow> js_error + audio_buffer" where
  "createBuffer numChannels len sampleRate =
     (let n = nat \<lfloor>len\<rfloor> in
      if numChannels = 0 \<or> n = 0 \<or> sampleRate \<le> 0 then Inl NotSupportedError
      else Inr \<lparr>channelData = replicate numChannels (replicate n 0),
                buf_length = n, buf_sampleRate = sampleRate\<rparr>)"

text \<open>
  \<open>decodeAudioData\<close> (App.tsx, lines 40 to 56). The inner loop writes
  \<open>dataInt16[i * numChannels + channel] / 32768.0\<close> at index \<open>i\<close> of each channel; a
  write past the buffer's length is ignored, so the indices that count are those below
  \<open>buf_length\<close>, and for them the read is within \<open>dataInt16\<close>.
\<close>

definition decodeAudioData :: "8 word list \<Rightarrow> real \<Rightarrow> nat \<Rightarrow> js_error + audio_buffer" where
  "decodeAudioData data sampleRate numChannels =
     (case Int16Array_of_Uint8Array data of
        Inl e \<Rightarrow> Inl e
      | Inr dataInt16 \<Rightarrow>
          let frameCount = real (length dataInt16) / real numChannels in
          (case createBuffer numChannels frameCount sampleRate of
             Inl e \<Rightarrow> Inl e
           | Inr buffer \<Rightarrow>
               Inr (buffer\<lparr>channelData :=
                      map (\<lambda>channel.
                             map (\<lambda>i. real_of_int (sint (dataInt16 ! (i * numChannels + channel)))
                                         / 32768)
                               [0..<buf_length buffer])
                        [0..<numChannels]\<rparr>)))"

text \<open>
  The conversion loop of \<open>onaudioprocess\<close> (App.tsx, lines 189 to 196):
  \<open>int16[i] = inputData[i] * 32768\<close>, then the bytes of \<open>int16.buffer\<close>.
\<close>

definition pcm16 :: "real list \<Rightarrow> 16 word list" where
  "pcm16 inputData = map (\<lambda>x. to_int16 (x * 32768)) inputData"

definition toPCM16 :: "real list \<Rightarrow> 8 word list" where
  "toPCM16 inputData = Uint8Array_of_Int16Array (pcm16 inputData)"

section \<open>Application state (App.tsx, lines 58 to 72)\<close>

text \<open>
  A value produced by \<open>JSON.parse\<close>, or \<open>undefined\<close>. An object keeps its members in
  the order they were written.
\<close>

datatype jsval =
  JUndefined | JNull | JBool bool | JNumber real | JString jsstring
  | JArray "jsval list" | JObject "(jsstring \<times> jsval) list"

datatype msg_role = User | Assistant

record message =
  role :: msg_role
  content :: jsval
  timestamp :: nat

text \<open>
  The platform objects the component creates live in stores, and the refs of the
  component hold indices into them: the connections made by \<open>ai.live.connect\<close>, the
  audio contexts, the buffer source nodes and the script processors (\<open>True\<close> while
  connected). \<open>micStreams\<close> counts the microphone streams obtained from
  \<open>getUserMedia\<close>; no line of App.tsx stops one. A promise that is rejected with nothing
  awaiting it, or an exception that no handler of the component catches, is recorded in
  \<open>uncaughtErrors\<close>; \<open>console\<close> holds the messages written with \<open>console.log\<close> and
  \<open>console.error\<close>.
\<close>

record pcm_blob =
  blob_data :: jsstring
  mimeType :: string

datatype conn_state = Pending | Open | Closed | Failed

record transport =
  t_state :: conn_state
  t_sent :: "pcm_blob list"

record audio_context =
  ctx_sampleRate :: real
  ctx_closed :: bool

record source_node =
  node_buffer :: audio_buffer
  node_started :: bool
  node_when :: real
  node_stopped :: bool

record app_state =
  isRecording :: bool
  lastResponse :: "jsval option"
  history :: "message list"
  status :: string
  isLoading :: bool
  inputAudioContextRef :: "nat option"
  outputAudioContextRef :: "nat option"
  nextStartTimeRef :: real
  sourcesRef :: "nat list"
  sessionRef :: "nat option"
  scriptProcessorRef :: "nat option"
  transports :: "transport list"
  contexts :: "audio_context list"
  nodes :: "source_node list"
  processors :: "bool list"
  micStreams :: nat
  uncaughtErrors :: "js_error list"
  console :: "string list"

definition initial_state :: app_state where
  "initial_state =
     \<lparr>isRecording = False, lastResponse = None, history = [],
      status = ''Ready to analyze'', isLoading = False,
      inputAudioContextRef = None, outputAudioContextRef = None,
      nextStartTimeRef = 0, sourcesRef = [], sessionRef = None,
      scriptProcessorRef = None,
      transports = [], contexts = [], nodes = [], processors = [],
      micStreams = 0, uncaughtErrors = [], console = []\<rparr>"

text \<open>
  A synchronous handler either returns or throws; the updates made before the throw
  stay.
\<close>

datatype outcome = Returns app_state | Throws js_error app_state

fun state_of :: "outcome \<Rightarrow> app_state" where
  "state_of (Returns st) = st"
| "state_of (Throws e st) = st"

section \<open>Output scheduling: \<open>onmessage\<close> (App.tsx, lines 117 to 145)\<close>

text \<open>
  \<open>audioData\<close> is the result of the optional chain
  \<open>message.serverContent?.modelTurn?.parts[0]?.inlineData?.data\<close>. \<open>now\<close> is the
  reading of \<open>ctx.currentTime\<close>. The handler is an \<open>async\<close> function, so an exception
  inside it rejects the promise it returned. The frames are taken one at a time, in
  arrival order: the promise the handler awaits is already settled, so it resumes
  before the next message is delivered. The branches for \<open>outputTranscription\<close> and \<open>turnComplete\<close> are empty
  in the source.
\<close>

record server_message =
  audioData :: "jsstring option"
  outputTranscription :: "jsstring option"
  turnComplete :: bool

definition uncaught :: "js_error \<Rightarrow> app_state \<Rightarrow> app_state" where
  "uncaught e st = st\<lparr>uncaughtErrors := uncaughtErrors st @ [e]\<rparr>"

definition onmessage :: "real \<Rightarrow> server_message \<Rightarrow> app_state \<Rightarrow> app_state" where
  "onmessage now message st =
     (case audioData message of
        None \<Rightarrow> st
      | Some audio \<Rightarrow>
          if audio = [] then st
          else (case outputAudioContextRef st of
             None \<Rightarrow> st
           | Some ctx \<Rightarrow>
               let st1 = st\<lparr>nextStartTimeRef := max (nextStartTimeRef st) now\<rparr> in
               (case decode audio of
                  Inl e \<Rightarrow> uncaught e st1
                | Inr bytes \<Rightarrow>
                    (case decodeAudioData bytes 24000 1 of
                       Inl e \<Rightarrow> uncaught e st1
                     | Inr buffer \<Rightarrow>
                         let source = length (nodes st1);
                             st2 = st1\<lparr>nodes := nodes st1 @
                                     [\<lparr>node_buffer = buffer, node_started = True,
                                       node_when = nextStartTimeRef st1,
                                       node_stopped = False\<rparr>]\<rparr>;
                             st3 = st2\<lparr>nextStartTimeRef :=
                                     nextStartTimeRef st2 + duration buffer\<rparr>
                         in st3\<lparr>sourcesRef := sourcesRef st3 @ [source]\<rparr>))))"

text \<open>The \<open>ended\<close> listener of a source: \<open>sourcesRef.current.delete(source)\<close>.\<close>

definition source_ended :: "nat \<Rightarrow> app_state \<Rightarrow> app_state" where
  "source_ended source st = st\<lparr>sourcesRef := filter (\<lambda>s. s \<noteq> source) (sourcesRef st)\<rparr>"

section \<open>Teardown: \<open>stopSession\<close> (App.tsx, lines 212 to 229)\<close>

text \<open>
  \<open>close()\<close> of an audio context that is already closed returns a rejected promise;
  \<open>stop()\<close> of a source node that was never started throws \<open>InvalidStateError\<close>, which
  ends the \<open>forEach\<close> there.
\<close>

definition close_context :: "nat option \<Rightarrow> app_state \<Rightarrow> app_state" where
  "close_context ref st =
     (case ref of
        None \<Rightarrow> st
      | Some c \<Rightarrow>
          if ctx_closed (contexts st ! c) then uncaught InvalidStateError st
          else st\<lparr>contexts := (contexts st)[c := (contexts st ! c)\<lparr>ctx_closed := True\<rparr>]\<rparr>)"

fun stop_nodes :: "source_node list \<Rightarrow> nat list \<Rightarrow> source_node list \<times> js_error option" where
  "stop_nodes ns [] = (ns, None)"
| "stop_nodes ns (s # rest) =
     (if node_started (ns ! s)
      then stop_nodes (ns[s := (ns ! s)\<lparr>node_stopped := True\<rparr>]) rest
      else (ns, Some InvalidStateError))"

definition close_transport :: "nat \<Rightarrow> app_state \<Rightarrow> app_state" where
  "close_transport t st =
     st\<lparr>transports := (transports st)[t := (transports st ! t)\<lparr>t_state := Closed\<rparr>]\<rparr>"

definition stopSession :: "app_state \<Rightarrow> outcome" where
  "stopSession st =
     (let st1 = st\<lparr>isRecording := False, status := ''Analysis complete''\<rparr>;
          st2 = (case scriptProcessorRef st1 of
                   None \<Rightarrow> st1
                 | Some p \<Rightarrow> st1\<lparr>processors := (processors st1)[p := False]\<rparr>);
          st3 = close_context (inputAudioContextRef st2) st2;
          st4 = close_context (outputAudioContextRef st3) st3
      in case stop_nodes (nodes st4) (sourcesRef st4) of
           (ns, Some e) \<Rightarrow> Throws e (st4\<lparr>nodes := ns\<rparr>)
         | (ns, None) \<Rightarrow>
             let st5 = st4\<lparr>nodes := ns, sourcesRef := []\<rparr>;
                 st6 = (case sessionRef st5 of
                          None \<Rightarrow> st5
                        | Some t \<Rightarrow> close_transport t st5)
             in Returns (st6\<lparr>sessionRef := None\<rparr>))"

section \<open>Session start: \<open>startSession\<close> (App.tsx, lines 99 to 210)\<close>

text \<open>
  \<open>startSession\<close> is an \<open>async\<close> function with two suspension points. \<open>startSession\<close>
  below is its body up to \<open>await sessionPromise\<close>: the guard on \<open>sessionRef.current\<close>,
  the two state updates and the call of \<open>ai.live.connect\<close>, which adds a pending
  connection. \<open>connect_resolved\<close> and \<open>connect_rejected\<close> continue from the first await,
  \<open>getUserMedia_resolved\<close> (lines 182 to 203) and \<open>getUserMedia_rejected\<close> from the
  second. A rejection runs the \<open>catch\<close> block, which releases nothing.
\<close>

definition startSession :: "app_state \<Rightarrow> app_state" where
  "startSession st =
     (if sessionRef st \<noteq> None then st
      else st\<lparr>status := ''Connecting to AI...'', isLoading := True,
              transports := transports st @ [\<lparr>t_state = Pending, t_sent = []\<rparr>]\<rparr>)"

definition startSession_catch :: "app_state \<Rightarrow> app_state" where
  "startSession_catch st =
     st\<lparr>console := console st @ [''Error starting session''],
        status := ''Microphone access denied'', isLoading := False\<rparr>"

definition connect_resolved :: "nat \<Rightarrow> app_state \<Rightarrow> app_state" where
  "connect_resolved t st = st\<lparr>sessionRef := Some t\<rparr>"

definition connect_rejected :: "nat \<Rightarrow> app_state \<Rightarrow> app_state" where
  "connect_rejected t st =
     startSession_catch
       (st\<lparr>transports := (transports st)[t := (transports st ! t)\<lparr>t_state := Failed\<rparr>]\<rparr>)"

definition getUserMedia_resolved :: "app_state \<Rightarrow> app_state" where
  "getUserMedia_resolved st =
     (let input = length (contexts st);
          output = Suc input;
          processor = length (processors st)
      in st\<lparr>micStreams := Suc (micStreams st),
             contexts := contexts st @
               [\<lparr>ctx_sampleRate = 16000, ctx_closed = False\<rparr>,
                \<lparr>ctx_sampleRate = 24000, ctx_closed = False\<rparr>],
             inputAudioContextRef := Some input,
             outputAudioContextRef := Some output,
             processors := processors st @ [True],
             scriptProcessorRef := Some processor\<rparr>)"

definition getUserMedia_rejected :: "app_state \<Rightarrow> app_state" where
  "getUserMedia_rejected st = startSession_catch st"

text \<open>The callbacks passed to \<open>ai.live.connect\<close> (lines 111 to 154).\<close>

definition onopen :: "nat \<Rightarrow> app_state \<Rightarrow> app_state" where
  "onopen t st =
     st\<lparr>transports := (transports st)[t := (transports st ! t)\<lparr>t_state := Open\<rparr>],
        console := console st @ [''Session Opened''],
        status := ''Listening...'', isRecording := True, isLoading := False\<rparr>"

definition onerror :: "app_state \<Rightarrow> outcome" where
  "onerror st =
     stopSession (st\<lparr>console := console st @ [''Session error''],
                     status := ''Connection error''\<rparr>)"

definition onclose :: "nat \<Rightarrow> app_state \<Rightarrow> outcome" where
  "onclose t st =
     stopSession ((close_transport t st)\<lparr>console := console st @ [''Session closed'']\<rparr>)"

text \<open>
  \<open>onaudioprocess\<close> (lines 188 to 200): the samples are converted, encoded and sent
  through the session when \<open>sessionRef.current\<close> is set.
\<close>

definition sendRealtimeInput :: "pcm_blob \<Rightarrow> nat \<Rightarrow> app_state \<Rightarrow> app_state" where
  "sendRealtimeInput blob t st =
     st\<lparr>transports := (transports st)[t := (transports st ! t)
            \<lparr>t_sent := t_sent (transports st ! t) @ [blob]\<rparr>]\<rparr>"

definition onaudioprocess :: "real list \<Rightarrow> app_state \<Rightarrow> outcome" where
  "onaudioprocess inputData st =
     (case encode (toPCM16 inputData) of
        Inl e \<Rightarrow> Throws e st
      | Inr d \<Rightarrow>
          let pcmBlob = \<lparr>blob_data = d, mimeType = ''audio/pcm;rate=16000''\<rparr> in
          Returns (case sessionRef st of
                     None \<Rightarrow> st
                   | Some t \<Rightarrow> sendRealtimeInput pcmBlob t st))"

text \<open>
  \<open>toggleRecording\<close> (lines 231 to 237), and the button that calls it, which is
  rendered with \<open>disabled={isLoading}\<close> (lines 468 to 470).
\<close>

definition toggleRecording :: "app_state \<Rightarrow> outcome" where
  "toggleRecording st = (if isRecording st then stopSession st else Returns (startSession st))"

definition click_button :: "app_state \<Rightarrow> outcome" where
  "click_button st = (if isLoading st then Returns st else toggleRecording st)"

section \<open>The platform's \<open>JSON.parse\<close>\<close>

text \<open>
  \<open>JSON.parse\<close> is modelled as a recursive-descent parser of the JSON grammar
  (ECMA-404): white space is tab, line feed, carriage return and space; a string has
  no raw control character, and a backslash in it is followed by a quote, a backslash,
  a slash, one of \<open>b f n r t\<close>, or \<open>u\<close> and four hexadecimal digits; a number
  has no leading zero; nothing but white space may follow the value. A number is kept
  as the exact value of its decimal literal. The recursion on nested values is bounded
  by a fuel of twice the length of the text plus two, which is never used up (lemma
  \<open>parse_fuel_enough\<close> below).
\<close>

definition json_ws :: "nat \<Rightarrow> bool" where
  "json_ws c = (c = 9 \<or> c = 10 \<or> c = 13 \<or> c = 32)"

definition skip_ws :: "jsstring \<Rightarrow> jsstring" where
  "skip_ws s = dropWhile json_ws s"

definition is_digit :: "nat \<Rightarrow> bool" where
  "is_digit c = (48 \<le> c \<and> c \<le> 57)"

definition hex_value :: "nat \<Rightarrow> nat option" where
  "hex_value c =
     (if 48 \<le> c \<and> c \<le> 57 then Some (c - 48)
      else if 65 \<le> c \<and> c \<le> 70 then Some (c - 55)
      else if 97 \<le> c \<and> c \<le> 102 then Some (c - 87)
      else None)"

definition escape_char :: "nat \<Rightarrow> nat option" where
  "escape_char e =
     (if e = 34 \<or> e = 92 \<or> e = 47 then Some e
      else if e = 98 then Some 8
      else if e = 102 then Some 12
      else if e = 110 then Some 10
      else if e = 114 then Some 13
      else if e = 116 then Some 9
      else None)"

datatype 'a parsed = Parsed 'a jsstring | Malformed | OutOfFuel

fun then_parsed :: "('a \<Rightarrow> 'b) \<Rightarrow> 'a parsed \<Rightarrow> 'b parsed" where
  "then_parsed f (Parsed x rest) = Parsed (f x) rest"
| "then_parsed f Malformed = Malformed"
| "then_parsed f OutOfFuel = OutOfFuel"

fun parse_chars :: "jsstring \<Rightarrow> jsstring parsed" where
  "parse_chars [] = Malformed"
| "parse_chars (c # cs) =
     (if c = 34 then Parsed [] cs
      else if c = 92 then
        (case cs of
           [] \<Rightarrow> Malformed
         | e # cs1 \<Rightarrow>
             if e = 117 then
               (case cs1 of
                  h1 # h2 # h3 # h4 # cs2 \<Rightarrow>
                    (case (hex_value h1, hex_value h2, hex_value h3, hex_value h4) of
                       (Some a, Some b, Some c', Some d) \<Rightarrow>
                         then_parsed (Cons (((a * 16 + b) * 16 + c') * 16 + d)) (parse_chars cs2)
                     | _ \<Rightarrow> Malformed)
                | _ \<Rightarrow> Malformed)
             else (case escape_char e of
                     None \<Rightarrow> Malformed
                   | Some x \<Rightarrow> then_parsed (Cons x) (parse_chars cs1)))
      else if c < 32 then Malformed
      else then_parsed (Cons c) (parse_chars cs))"

definition digits_value :: "jsstring \<Rightarrow> nat" where
  "digits_value ds = foldl (\<lambda>v c. v * 10 + (c - 48)) 0 ds"

definition parse_sign :: "jsstring \<Rightarrow> bool \<times> jsstring" where
  "parse_sign s = (case s of [] \<Rightarrow> (False, s) | c # r \<Rightarrow> if c = 45 then (True, r) else (False, s))"

definition parse_fraction :: "jsstring \<Rightarrow> (jsstring \<times> jsstring) option" where
  "parse_fraction s =
     (case s of
        [] \<Rightarrow> Some ([], s)
      | c # r \<Rightarrow>
          if c = 46 then
            (if takeWhile is_digit r = [] then None
             else Some (takeWhile is_digit r, dropWhile is_digit r))
          else Some ([], s))"

definition parse_exponent :: "jsstring \<Rightarrow> (int \<times> jsstring) option" where
  "parse_exponent s =
     (case s of
        [] \<Rightarrow> Some (0, s)
      | c # r \<Rightarrow>
          if c = 101 \<or> c = 69 then
            (let (neg, r1) =
                   (case r of
                      [] \<Rightarrow> (False, r)
                    | g # r' \<Rightarrow> if g = 45 then (True, r') else if g = 43 then (False, r') else (False, r));
                 ds = takeWhile is_digit r1
             in if ds = [] then None
                else Some (if neg then - int (digits_value ds) else int (digits_value ds),
                           dropWhile is_digit r1))
          else Some (0, s))"

definition parse_number :: "jsstring \<Rightarrow> real parsed" where
  "parse_number s =
     (let (neg, s1) = parse_sign s;
          ip = takeWhile is_digit s1
      in if ip = [] \<or> (1 < length ip \<and> hd ip = 48) then Malformed
         else (case parse_fraction (dropWhile is_digit s1) of
            None \<Rightarrow> Malformed
          | Some (fp, s3) \<Rightarrow>
              (case parse_exponent s3 of
                 None \<Rightarrow> Malformed
               | Some (ex, s4) \<Rightarrow>
                   let m = real (digits_value ip) + real (digits_value fp) / 10 ^ length fp;
                       v = (if 0 \<le> ex then m * 10 ^ nat ex else m / 10 ^ nat (- ex))
                   in Parsed (if neg then - v else v) s4)))"

fun parse_value :: "nat \<Rightarrow> jsstring \<Rightarrow> jsval parsed"
  and parse_elements :: "nat \<Rightarrow> jsstring \<Rightarrow> jsval list parsed"
  and parse_members :: "nat \<Rightarrow> jsstring \<Rightarrow> (jsstring \<times> jsval) list parsed"
where
  "parse_value 0 s = OutOfFuel"
| "parse_value (Suc n) s =
     (case skip_ws s of
        [] \<Rightarrow> Malformed
      | c # r \<Rightarrow>
          if c = 123 then
            (case skip_ws r of
               [] \<Rightarrow> Malformed
             | c1 # r1 \<Rightarrow>
                 if c1 = 125 then Parsed (JObject []) r1
                 else then_parsed JObject (parse_members n r))
          else if c = 91 then
            (case skip_ws r of
               [] \<Rightarrow> Malformed
             | c1 # r1 \<Rightarrow>
                 if c1 = 93 then Parsed (JArray []) r1
                 else then_parsed JArray (parse_elements n r))
          else if c = 34 then then_parsed JString (parse_chars r)
          else if c = 45 \<or> is_digit c then then_parsed JNumber (parse_number (c # r))
          else if take 4 (c # r) = [116, 114, 117, 101] then Parsed (JBool True) (drop 4 (c # r))
          else if take 5 (c # r) = [102, 97, 108, 115, 101] then Parsed (JBool False) (drop 5 (c # r))
          else if take 4 (c # r) = [110, 117, 108, 108] then Parsed JNull (drop 4 (c # r))
          else Malformed)"
| "parse_elements 0 s = OutOfFuel"
| "parse_elements (Suc n) s =
     (case parse_value n s of
        Parsed v rest \<Rightarrow>
          (case skip_ws rest of
             [] \<Rightarrow> Malformed
           | c # r \<Rightarrow>
               if c = 44 then then_parsed (Cons v) (parse_elements n r)
               else if c = 93 then Parsed [v] r
               else Malformed)
      | Malformed \<Rightarrow> Malformed
      | OutOfFuel \<Rightarrow> OutOfFuel)"
| "parse_members 0 s = OutOfFuel"
| "parse_members (Suc n) s =
     (case skip_ws s of
        [] \<Rightarrow> Malformed
      | c # r \<Rightarrow>
          if c = 34 then
            (case parse_chars r of
               Parsed key rest \<Rightarrow>
                 (case skip_ws rest of
                    [] \<Rightarrow> Malformed
                  | c1 # r1 \<Rightarrow>
                      if c1 = 58 then
                        (case parse_value n r1 of
                           Parsed v rest2 \<Rightarrow>
                             (case skip_ws rest2 of
                                [] \<Rightarrow> Malformed
                              | c2 # r2 \<Rightarrow>
                                  if c2 = 44 then then_parsed (Cons (key, v)) (parse_members n r2)
                                  else if c2 = 125 then Parsed [(key, v)] r2
                                  else Malformed)
                         | Malformed \<Rightarrow> Malformed
                         | OutOfFuel \<Rightarrow> OutOfFuel)
                      else Malformed)
             | Malformed \<Rightarrow> Malformed
             | OutOfFuel \<Rightarrow> OutOfFuel)
          else Malformed)"

definition JSON_parse :: "jsstring \<Rightarrow> js_error + jsval" where
  "JSON_parse text =
     (case parse_value (2 * length text + 2) text of
        Parsed v rest \<Rightarrow> if skip_ws rest = [] then Inr v else Inl SyntaxError
      | Malformed \<Rightarrow> Inl SyntaxError
      | OutOfFuel \<Rightarrow> Inl RangeError)"

section \<open>Response extraction: \<open>processResponse\<close> (App.tsx, lines 74 to 97)\<close>

text \<open>
  \<open>text.match(/\{[\s\S]*\}/)\<close>: the leftmost match starts at the first opening brace,
  and the greedy star extends it to the last closing brace after it; there is no match
  when no closing brace follows the first opening one.
\<close>

definition match_json_block :: "jsstring \<Rightarrow> jsstring option" where
  "match_json_block text =
     (case dropWhile (\<lambda>c. c \<noteq> 123) text of
        [] \<Rightarrow> None
      | b # rest \<Rightarrow>
          if 125 \<in> set rest
          then Some (b # rev (dropWhile (\<lambda>c. c \<noteq> 125) (rev rest)))
          else None)"


text \<open>
  \<open>parsed.insight\<close>: reading a property of \<open>null\<close> or \<open>undefined\<close> throws; the value of
  a member written twice is the last one; anything without the property gives
  \<open>undefined\<close>.
\<close>

definition insight_of :: "jsval \<Rightarrow> js_error + jsval" where
  "insight_of v =
     (case v of
        JUndefined \<Rightarrow> Inl TypeError
      | JNull \<Rightarrow> Inl TypeError
      | JObject members \<Rightarrow>
          Inr (case map_of (rev members) (js ''insight'') of
                 None \<Rightarrow> JUndefined
               | Some x \<Rightarrow> x)
      | _ \<Rightarrow> Inr JUndefined)"

text \<open>
  \<open>now\<close> is the value of \<open>new Date()\<close>. The cast \<open>as BIResponse\<close> checks nothing at
  run time. The \<open>catch\<close> block only writes to the console. The message is built inside
  the updater passed to \<open>setHistory\<close>, so a throw of \<open>parsed.insight\<close> would escape the
  \<open>try\<close>; it cannot happen, since a text that starts with a brace parses to an object
  or not at all.
\<close>

definition processResponse :: "nat \<Rightarrow> jsstring \<Rightarrow> app_state \<Rightarrow> app_state" where
  "processResponse now text st =
     (case match_json_block text of
        Some block \<Rightarrow>
          (case JSON_parse block of
             Inl e \<Rightarrow> st\<lparr>console := console st @ [''Failed to parse response'']\<rparr>
           | Inr parsed \<Rightarrow>
               let st1 = st\<lparr>lastResponse := Some parsed, status := ''Analysis complete''\<rparr> in
               (case insight_of parsed of
                  Inl e \<Rightarrow> uncaught e st1
                | Inr insight \<Rightarrow>
                    st1\<lparr>history := \<lparr>role = Assistant, content = insight, timestamp = now\<rparr>
                                    # history st1\<rparr>))
      | None \<Rightarrow>
          st\<lparr>history := \<lparr>role = Assistant, content = JString text, timestamp = now\<rparr>
                          # history st\<rparr>)"

section \<open>Events\<close>

text \<open>
  What can happen to the session, the audio pipeline and the log of the mounted
  component: a call of one of its functions, the settling of one of the two awaited
  promises, a callback of the connection, the \<open>ended\<close> event of a source, an audio
  frame from the microphone. (The effect that shows a sample chart at mount and the
  chart-type buttons write \<open>lastResponse\<close> and nothing else.) An exception thrown by a
  handler ends that handler only; the component goes on from the state reached.
\<close>

datatype event =
  StartSession
  | ConnectResolved nat
  | ConnectRejected nat
  | MicGranted
  | MicDenied
  | OnOpen nat
  | OnMessage real server_message
  | OnError
  | OnClose nat
  | StopSession
  | ToggleRecording
  | ClickButton
  | SourceEnded nat
  | AudioProcess "real list"
  | ProcessResponse nat jsstring

fun step :: "event \<Rightarrow> app_state \<Rightarrow> outcome" where
  "step StartSession st = Returns (startSession st)"
| "step (ConnectResolved t) st = Returns (connect_resolved t st)"
| "step (ConnectRejected t) st = Returns (connect_rejected t st)"
| "step MicGranted st = Returns (getUserMedia_resolved st)"
| "step MicDenied st = Returns (getUserMedia_rejected st)"
| "step (OnOpen t) st = Returns (onopen t st)"
| "step (OnMessage now message) st = Returns (onmessage now message st)"
| "step OnError st = onerror st"
| "step (OnClose t) st = onclose t st"
| "step StopSession st = stopSession st"
| "step ToggleRecording st = toggleRecording st"
| "step ClickButton st = click_button st"
| "step (SourceEnded s) st = Returns (source_ended s st)"
| "step (AudioProcess inputData) st = onaudioprocess inputData st"
| "step (ProcessResponse now text) st = Returns (processResponse now text st)"

fun run :: "app_state \<Rightarrow> event list \<Rightarrow> app_state" where
  "run st [] = st"
| "run st (ev # evs) = run (state_of (step ev st)) evs"

section \<open>Invariants of the reachable states\<close>

text \<open>
  The end of a scheduled source on the output clock; the schedule invariant (sources
  created one after the other do not overlap, and none ends after the cursor); and the
  invariant of the set of active sources (each of its members is a node that was
  started).
\<close>

definition node_end :: "source_node \<Rightarrow> real" where
  "node_end n = node_when n + duration (node_buffer n)"

definition schedule_inv :: "app_state \<Rightarrow> bool" where
  "schedule_inv st =
     ((\<forall>i. Suc i < length (nodes st) \<longrightarrow>
           node_end (nodes st ! i) \<le> node_when (nodes st ! Suc i))
      \<and> (\<forall>i < length (nodes st). node_end (nodes st ! i) \<le> nextStartTimeRef st))"

definition sources_inv :: "app_state \<Rightarrow> bool" where
  "sources_inv st =
     (\<forall>s \<in> set (sourcesRef st). s < length (nodes st) \<and> node_started (nodes st ! s))"

section \<open>Example inputs\<close>

text \<open>
  A session that is established (connection open, promise resolved, microphone
  granted), and three audio frames of two silent samples each (the base64 text
  \<open>AAAAAA==\<close> is four zero bytes), the first at clock reading \<open>0\<close>, the next two at
  \<open>1/2\<close>.
\<close>

definition silence_frame :: server_message where
  "silence_frame =
     \<lparr>audioData = Some (js ''AAAAAA==''), outputTranscription = None, turnComplete = False\<rparr>"

definition silence_buffer :: audio_buffer where
  "silence_buffer = \<lparr>channelData = [[0, 0]], buf_length = 2, buf_sampleRate = 24000\<rparr>"

definition session_events :: "event list" where
  "session_events = [StartSession, OnOpen 0, ConnectResolved 0, MicGranted]"

definition playback_events :: "event list" where
  "playback_events =
     session_events @
     [OnMessage 0 silence_frame, OnMessage (1 / 2) silence_frame,
      OnMessage (1 / 2) silence_frame]"

text \<open>
  The two transcripts of the extractor's examples, and the value the first one's JSON
  block parses to.
\<close>

definition transcript_with_chart :: jsstring where
  \<open>transcript_with_chart =
     js ''Sales are up. {"insight":"x","title":"t","chartType":"bar","data":[{"label":"A","value":1}]}''\<close>

definition chart_result :: jsval where
  "chart_result =
     JObject
       [(js ''insight'', JString (js ''x'')),
        (js ''title'', JString (js ''t'')),
        (js ''chartType'', JString (js ''bar'')),
        (js ''data'', JArray [JObject [(js ''label'', JString (js ''A'')),
                                        (js ''value'', JNumber 1)]])]"

definition spoken_reply :: jsstring where
  "spoken_reply = js ''just a spoken reply''"

section \<open>Base64 round trip\<close>

lemma b64_index_char: "n < 64 \<Longrightarrow> b64_index (b64_char n) = Some n"
  by (auto simp: b64_index_def b64_char_def)

lemma b64_char_not_pad: "b64_char n \<noteq> 61"
  unfolding b64_char_def by (auto; arith)

lemma b64_char_not_ws: "\<not> ascii_whitespace (b64_char n)"
  unfolding b64_char_def ascii_whitespace_def by (auto; arith)

lemma sextet1_bound: "a < 256 \<Longrightarrow> a div 4 < (64::nat)"
  by simp
lemma sextet2_bound: "b < 256 \<Longrightarrow> (a mod 4) * 16 + b div 16 < (64::nat)"
proof -
  assume "b < 256"
  then have "b div 16 < 16" by simp
  moreover have "a mod 4 < 4" by simp
  then have "(a mod 4) * 16 \<le> 3 * 16" by simp
  ultimately show ?thesis by linarith
qed
lemma sextet3_bound: "c < 256 \<Longrightarrow> (b mod 16) * 4 + c div 64 < (64::nat)"
proof -
  assume "c < 256"
  then have "c div 64 < 4" by simp
  moreover have "b mod 16 < 16" by simp
  then have "(b mod 16) * 4 \<le> 15 * 4" by simp
  ultimately show ?thesis by linarith
qed
lemma sextet3_bound_pad: "(b mod 16) * 4 < (64::nat)"
proof -
  have "b mod 16 < 16" by simp
  then show ?thesis by simp
qed
lemma sextet2_bound_pad: "(a mod 4) * 16 < (64::nat)"
proof -
  have "a mod 4 < 4" by simp
  then show ?thesis by simp
qed
lemma byte1_restored: "b < 256 \<Longrightarrow> a div 4 * 4 + ((a mod 4) * 16 + b div 16) div 16 = (a::nat)"
proof -
  assume "b < 256"
  then have "b div 16 < 16" by simp
  then have "((a mod 4) * 16 + b div 16) div 16 = a mod 4" by simp
  then show ?thesis by simp
qed
lemma byte2_restored: "b < 256 \<Longrightarrow> c < 256 \<Longrightarrow> (((a mod 4) * 16 + b div 16) mod 16) * 16 + ((b mod 16) * 4 + c div 64) div 4 = (b::nat)"
proof -
  assume b: "b < 256" and c: "c < 256"
  from b have "b div 16 < 16" by simp
  then have 1: "((a mod 4) * 16 + b div 16) mod 16 = b div 16" by simp
  from c have "c div 64 < 4" by simp
  then have 2: "((b mod 16) * 4 + c div 64) div 4 = b mod 16" by simp
  show ?thesis unfolding 1 2 by simp
qed
lemma byte3_restored: "c < 256 \<Longrightarrow> (((b mod 16) * 4 + c div 64) mod 4) * 64 + c mod 64 = (c::nat)"
proof -
  assume c: "c < 256"
  then have "c div 64 < 4" by simp
  then have 1: "((b mod 16) * 4 + c div 64) mod 4 = c div 64" by simp
  show ?thesis unfolding 1 by simp
qed
lemma byte2_restored_pad: "b < 256 \<Longrightarrow> (((a mod 4) * 16 + b div 16) mod 16) * 16 + ((b mod 16) * 4) div 4 = (b::nat)"
  using byte2_restored[of b 0 a] by simp
lemma byte1_restored_pad: "a div 4 * 4 + ((a mod 4) * 16) div 16 = (a::nat)"
  using byte1_restored[of 0 a] by simp

lemma b64_groups_bound:
  "list_all (\<lambda>c. c < 256) s \<Longrightarrow> list_all (\<lambda>g. g < 64) (b64_groups s)"
  by (induction s rule: b64_groups.induct) (simp_all add: sextet1_bound sextet2_bound sextet3_bound sextet3_bound_pad sextet2_bound_pad)

lemma b64_bytes_groups:
  "list_all (\<lambda>c. c < 256) s \<Longrightarrow> b64_bytes (b64_groups s) = s"
proof (induction s rule: b64_groups.induct)
  case (1 a b c rest)
  then have b: "b < 256" and c: "c < 256" and IH: "b64_bytes (b64_groups rest) = rest"
    by simp_all
  show ?case
    by (simp only: b64_groups.simps append_Cons append_Nil b64_bytes.simps
        byte1_restored[OF b] byte2_restored[OF b c] byte3_restored[OF c] IH)
next
  case (2 a b)
  then have b: "b < 256" by simp
  show ?case
    by (simp only: b64_groups.simps b64_bytes.simps byte1_restored[OF b] byte2_restored_pad[OF b])
next
  case (3 a)
  show ?case
    by (simp only: b64_groups.simps b64_bytes.simps byte1_restored_pad)
qed simp

lemma length_b64_groups:
  "length (b64_groups s) = 4 * (length s div 3) + (if length s mod 3 = 0 then 0 else length s mod 3 + 1)"
  by (induction s rule: b64_groups.induct) simp_all

lemma b64_padded_length:
  "(length (b64_groups s) + (3 - length s mod 3) mod 3) mod 4 = 0"
proof -
  have "length s mod 3 = 0 \<or> length s mod 3 = 1 \<or> length s mod 3 = 2" by arith
  then show ?thesis by (auto simp: length_b64_groups)
qed

lemma b64_groups_length_mod: "length (b64_groups s) mod 4 \<noteq> Suc 0"
proof -
  have "length s mod 3 = 0 \<or> length s mod 3 = 1 \<or> length s mod 3 = 2" by arith
  then show ?thesis by (auto simp: length_b64_groups)
qed

lemma drop_trailing_eq_chars: "drop_trailing_eq (map b64_char g) = map b64_char g"
  by (cases "g = []") (simp_all add: drop_trailing_eq_def last_map b64_char_not_pad)

lemma drop_trailing_eq_pad:
  "drop_trailing_eq (map b64_char g @ replicate (Suc p) 61) = map b64_char g @ replicate p 61"
proof -
  have "replicate (Suc p) (61::nat) = replicate p 61 @ [61]"
    by (simp add: replicate_append_same)
  then have "map b64_char g @ replicate (Suc p) 61 = (map b64_char g @ replicate p 61) @ [61]"
    by simp
  then show ?thesis
    by (simp only: drop_trailing_eq_def snoc_eq_iff_butlast butlast_snoc last_snoc) simp
qed

lemma strip_padding_btoa:
  assumes "p \<le> 2" "(length g + p) mod 4 = 0"
  shows "strip_padding (map b64_char g @ replicate p 61) = map b64_char g"
proof -
  consider "p = 0" | "p = Suc 0" | "p = Suc (Suc 0)" using assms(1) by arith
  then have "drop_trailing_eq (drop_trailing_eq (map b64_char g @ replicate p 61)) = map b64_char g"
  proof cases
    case 1 then show ?thesis by (simp add: drop_trailing_eq_chars)
  next
    case 2 then show ?thesis using drop_trailing_eq_pad[of g 0] by (simp add: drop_trailing_eq_chars)
  next
    case 3 then show ?thesis using drop_trailing_eq_pad[of g "Suc 0"] drop_trailing_eq_pad[of g 0] by (simp add: drop_trailing_eq_chars)
  qed
  then show ?thesis using assms(2) by (simp add: strip_padding_def)
qed

lemma those_map_Some: "list_all (\<lambda>x. f x = Some (h x)) xs \<Longrightarrow> those (map f xs) = Some (map h xs)"
  by (induction xs) simp_all

lemma those_b64_index: "list_all (\<lambda>g. g < 64) gs \<Longrightarrow> those (map b64_index (map b64_char gs)) = Some gs"
  by (induction gs) (simp_all add: b64_index_char)

lemma filter_ws_btoa: "filter (\<lambda>c. \<not> ascii_whitespace c) (map b64_char g @ replicate p 61) = map b64_char g @ replicate p 61"
proof -
  have 1: "filter (\<lambda>c. \<not> ascii_whitespace c) (map b64_char g) = map b64_char g"
    by (simp add: filter_id_conv b64_char_not_ws)
  have "\<not> ascii_whitespace 61"
    by (simp add: ascii_whitespace_def)
  then have 2: "filter (\<lambda>c. \<not> ascii_whitespace c) (replicate p 61) = replicate p 61"
    by (simp add: filter_id_conv)
  show ?thesis
    by (simp only: filter_append 1 2)
qed

lemma atob_btoa:
  assumes "list_all (\<lambda>c. c < 256) s"
  shows "btoa s = Inr (map b64_char (b64_groups s) @ replicate ((3 - length s mod 3) mod 3) 61)"
    and "atob (map b64_char (b64_groups s) @ replicate ((3 - length s mod 3) mod 3) 61) = Inr s"
proof -
  have "\<not> list_ex (\<lambda>c. 255 < c) s"
    using assms by (induction s) auto
  then show "btoa s = Inr (map b64_char (b64_groups s) @ replicate ((3 - length s mod 3) mod 3) 61)"
    by (simp add: btoa_def)
  have p: "(3 - length s mod 3) mod 3 \<le> 2" by arith
  have sp: "strip_padding (map b64_char (b64_groups s) @ replicate ((3 - length s mod 3) mod 3) 61) = map b64_char (b64_groups s)"
    by (rule strip_padding_btoa[OF p b64_padded_length])
  show "atob (map b64_char (b64_groups s) @ replicate ((3 - length s mod 3) mod 3) 61) = Inr s"
    unfolding atob_def filter_ws_btoa sp
    by (simp add: b64_groups_length_mod those_b64_index b64_groups_bound[OF assms]
        b64_bytes_groups[OF assms] del: map_map)
qed

lemma bytes_below_256: "list_all (\<lambda>c. c < 256) (map unat (bytes :: 8 word list))"
proof (induction bytes)
  case (Cons b bs)
  have "unat b < 2 ^ LENGTH(8)" by (rule unsigned_less)
  then show ?case using Cons by simp
qed simp

text \<open>
  Claim C7. The transport text encoding is byte-preserving: for every byte buffer \<open>b\<close>,
  \<open>encode b\<close> returns a text (it does not throw) and \<open>decode\<close> of that text returns
  \<open>b\<close> again.
\<close>

theorem encode_decode_roundtrip:
  "\<exists>t. encode b = Inr t \<and> decode t = Inr b"
proof -
  let ?s = "map unat b"
  let ?t = "map b64_char (b64_groups ?s) @ replicate ((3 - length ?s mod 3) mod 3) 61"
  have 1: "encode b = Inr ?t"
    unfolding encode_def by (rule atob_btoa(1)[OF bytes_below_256])
  have 2: "atob ?t = Inr ?s"
    by (rule atob_btoa(2)[OF bytes_below_256])
  have "decode ?t = Inr (map of_nat ?s)"
    unfolding decode_def 2 by simp
  also have "map of_nat ?s = b"
    by (simp add: map_idI)
  finally show ?thesis using 1 by blast
qed

lemma encode_examples:
  "encode [0x48, 0x69, 0xFF] = Inr (js ''SGn/'')"
  "encode [0x48, 0x69] = Inr (js ''SGk='')"
  "encode [0x48] = Inr (js ''SA=='')"
  by code_simp+

lemma decode_examples:
  "decode (js ''SGk='') = Inr [0x48, 0x69]"
  "decode (js '' S G k'') = Inr [0x48, 0x69]"
  "decode (js ''SGk=='') = Inl InvalidCharacterError"
  "decode (js ''S'') = Inl InvalidCharacterError"
  by code_simp+

section \<open>PCM round trip\<close>

lemma int16_of_bytes:
  "ucast (ucast w :: 8 word) OR push_bit 8 (ucast (ucast (drop_bit 8 w) :: 8 word)) = (w :: 16 word)"
  by (rule bit_word_eqI) (auto simp: bit_simps)

lemma int16s_of_bytes_view: "int16s_of_bytes (Uint8Array_of_Int16Array ws) = ws"
  by (induction ws) (simp_all add: Uint8Array_of_Int16Array_def int16_bytes_def int16_of_bytes)

lemma length_Uint8Array_of_Int16Array:
  "length (Uint8Array_of_Int16Array ws) = 2 * length ws"
  by (induction ws) (simp_all add: Uint8Array_of_Int16Array_def int16_bytes_def)

lemma Int16Array_view: "Int16Array_of_Uint8Array (Uint8Array_of_Int16Array ws) = Inr ws"
  by (simp add: Int16Array_of_Uint8Array_def length_Uint8Array_of_Int16Array int16s_of_bytes_view)

lemma js_trunc_range:
  assumes "- 32768 \<le> y" "y < 32768"
  shows "- 32768 \<le> js_trunc y" "js_trunc y < 32768"
  using assms unfolding js_trunc_def by (auto; linarith)+

lemma js_trunc_error: "\<bar>real_of_int (js_trunc y) - y\<bar> < 1"
  unfolding js_trunc_def by (auto; linarith)

lemma sint_to_int16:
  assumes "- 32768 \<le> y" "y < 32768"
  shows "sint (to_int16 y) = js_trunc y"
proof -
  have "signed_take_bit (LENGTH(16) - 1) (js_trunc y) = js_trunc y"
    using js_trunc_range[OF assms] by (intro signed_take_bit_int_eq_self) simp_all
  then show ?thesis
    by (simp only: to_int16_def sint_sbintrunc')
qed

lemma sample_roundtrip:
  assumes "- 1 \<le> x" "x < 1"
  shows "\<bar>real_of_int (sint (to_int16 (x * 32768))) / 32768 - x\<bar> < 1 / 32768"
proof -
  let ?y = "x * 32768"
  have r: "- 32768 \<le> ?y" "?y < 32768" using assms by simp_all
  have e: "\<bar>real_of_int (js_trunc ?y) - ?y\<bar> < 1" by (rule js_trunc_error)
  have "real_of_int (js_trunc ?y) / 32768 - x = (real_of_int (js_trunc ?y) - ?y) / 32768"
    by (simp add: field_simps)
  then have "\<bar>real_of_int (js_trunc ?y) / 32768 - x\<bar> = \<bar>real_of_int (js_trunc ?y) - ?y\<bar> / 32768"
    by (simp only: abs_divide)
  also have "\<dots> < 1 / 32768" using e by simp
  finally show ?thesis
    by (simp only: sint_to_int16[OF r])
qed

lemma decodeAudioData_mono:
  assumes "ws \<noteq> []"
  shows "decodeAudioData (Uint8Array_of_Int16Array ws) 24000 1 =
    Inr \<lparr>channelData = [map (\<lambda>w. real_of_int (sint w) / 32768) ws],
         buf_length = length ws, buf_sampleRate = 24000\<rparr>"
proof -
  have "map (\<lambda>i. real_of_int (sint (ws ! i)) / 32768) [0..<length ws]
      = map (\<lambda>w. real_of_int (sint w) / 32768) ws"
    by (rule nth_equalityI) simp_all
  then show ?thesis using assms
    by (simp add: decodeAudioData_def Int16Array_view createBuffer_def Let_def)
qed

text \<open>
  Claim C6, as amended. For every non-empty buffer \<open>x\<close> of samples in the half-open
  range from \<open>-1\<close> (included) to \<open>1\<close> (excluded), decoding the PCM bytes made by
  \<open>onaudioprocess\<close> succeeds and gives one channel of the same length, each sample
  within less than \<open>1/32768\<close> of the original.
\<close>

theorem pcm_roundtrip_error:
  assumes "x \<noteq> []" and "\<forall>s \<in> set x. - 1 \<le> s \<and> s < 1"
  shows "\<exists>ys. map_sum id channelData (decodeAudioData (toPCM16 x) 24000 1) = Inr [ys]
           \<and> length ys = length x
           \<and> (\<forall>i < length x. \<bar>ys ! i - x ! i\<bar> < 1 / 32768)"
proof -
  let ?ys = "map (\<lambda>w. real_of_int (sint w) / 32768) (pcm16 x)"
  have ne: "pcm16 x \<noteq> []" using assms(1) by (simp add: pcm16_def)
  have 1: "map_sum id channelData (decodeAudioData (toPCM16 x) 24000 1) = Inr [?ys]"
    unfolding toPCM16_def decodeAudioData_mono[OF ne] by simp
  have 2: "length ?ys = length x" by (simp add: pcm16_def)
  have 3: "\<bar>?ys ! i - x ! i\<bar> < 1 / 32768" if "i < length x" for i
  proof -
    have "x ! i \<in> set x" using that by simp
    then have "- 1 \<le> x ! i" "x ! i < 1" using assms(2) by auto
    then show ?thesis using that sample_roundtrip[of "x ! i"] by (simp add: pcm16_def)
  qed
  show ?thesis using 1 2 3 by blast
qed

theorem pcm_roundtrip_error_witness:
  "[1 / 2, - 1, 1 / 3] \<noteq> ([] :: real list)
   \<and> (\<exists>ys. map_sum id channelData (decodeAudioData (toPCM16 [1 / 2, - 1, 1 / 3]) 24000 1) = Inr [ys]
           \<and> length ys = 3
           \<and> \<bar>ys ! 0 - 1 / 2\<bar> < 1 / 32768
           \<and> \<bar>ys ! 1 - (- 1)\<bar> < 1 / 32768
           \<and> \<bar>ys ! 2 - 1 / 3\<bar> < 1 / 32768)"
proof -
  have h: "\<forall>s \<in> set [1 / 2, - 1, 1 / 3 :: real]. - 1 \<le> s \<and> s < 1"
    by simp
  obtain ys where ys:
    "map_sum id channelData (decodeAudioData (toPCM16 [1 / 2, - 1, 1 / 3]) 24000 1) = Inr [ys]"
    "length ys = length [1 / 2, - 1, 1 / 3 :: real]"
    "\<forall>i < length [1 / 2, - 1, 1 / 3 :: real]. \<bar>ys ! i - [1 / 2, - 1, 1 / 3] ! i\<bar> < 1 / 32768"
    using pcm_roundtrip_error[OF _ h] by blast
  have e: "\<bar>ys ! i - [1 / 2, - 1, 1 / 3] ! i\<bar> < 1 / 32768" if "i < 3" for i
    using ys(3) that by simp
  have "\<bar>ys ! 0 - 1 / 2\<bar> < 1 / 32768" using e[of 0] by simp
  moreover have "\<bar>ys ! 1 - (- 1)\<bar> < 1 / 32768" using e[of 1] by simp
  moreover have "\<bar>ys ! 2 - 1 / 3\<bar> < 1 / 32768" using e[of 2] by simp
  ultimately show ?thesis using ys(1,2) by auto
qed

text \<open>
  Claim C6, as stated, fails at the sample \<open>1.0\<close>: \<open>1.0 * 32768 = 32768\<close> does not fit
  sixteen bits and wraps to \<open>-32768\<close>, so the round trip returns \<open>-1.0\<close>. (And an empty
  buffer does not come back at all: \<open>createBuffer\<close> rejects a length of zero.)
\<close>

theorem pcm_full_scale_wraps:
  "decodeAudioData (toPCM16 [1]) 24000 1 =
     Inr \<lparr>channelData = [[- 1]], buf_length = 1, buf_sampleRate = 24000\<rparr>
   \<and> \<not> \<bar>(- 1 :: real) - 1\<bar> \<le> 1 / 32768
   \<and> decodeAudioData (toPCM16 []) 24000 1 = Inl NotSupportedError"
  by (simp add: decodeAudioData_def toPCM16_def pcm16_def to_int16_def js_trunc_def
      Uint8Array_of_Int16Array_def int16_bytes_def Int16Array_of_Uint8Array_def createBuffer_def)

section \<open>The playback cursor and the invariants\<close>

lemma decodeAudioData_sampleRate:
  "decodeAudioData bytes sr nc = Inr b \<Longrightarrow> buf_sampleRate b = sr"
  by (auto simp: decodeAudioData_def createBuffer_def Let_def split: sum.splits if_splits)

lemma duration_nonneg:
  "decodeAudioData bytes 24000 nc = Inr b \<Longrightarrow> 0 \<le> duration b"
  by (simp add: duration_def decodeAudioData_sampleRate)

lemma onmessage_cursor:
  "nextStartTimeRef st \<le> nextStartTimeRef (onmessage now m st)"
  by (auto simp: onmessage_def uncaught_def Let_def dest: duration_nonneg split: option.splits sum.splits)

lemma close_context_frame:
  "nextStartTimeRef (close_context r st) = nextStartTimeRef st"
  "nodes (close_context r st) = nodes st"
  "sourcesRef (close_context r st) = sourcesRef st"
  "sessionRef (close_context r st) = sessionRef st"
  "transports (close_context r st) = transports st"
  by (simp_all add: close_context_def uncaught_def split: option.splits)

lemma stopSession_cursor:
  "nextStartTimeRef (state_of (stopSession st)) = nextStartTimeRef st"
  by (simp add: stopSession_def Let_def close_context_frame close_transport_def
      split: option.splits prod.splits)

lemma step_cursor:
  "nextStartTimeRef st \<le> nextStartTimeRef (state_of (step ev st))"
proof (cases ev)
  case (OnMessage now m)
  then show ?thesis by (simp add: onmessage_cursor)
next
  case (ProcessResponse now tr)
  then show ?thesis
    by (simp add: processResponse_def uncaught_def Let_def split: option.splits sum.splits)
next
  case (AudioProcess x)
  then show ?thesis
    by (simp add: onaudioprocess_def sendRealtimeInput_def Let_def split: option.splits sum.splits)
qed (simp_all add: startSession_def connect_resolved_def connect_rejected_def
      startSession_catch_def getUserMedia_resolved_def getUserMedia_rejected_def
      onopen_def onerror_def onclose_def close_transport_def stopSession_cursor
      toggleRecording_def click_button_def source_ended_def Let_def)

text \<open>
  Claim C9. Over any sequence of events of the component, from any state, the value of
  \<open>nextStartTimeRef\<close> (the playback cursor) never decreases: \<open>onmessage\<close> raises it to
  the clock reading and then adds a duration that is not negative, and nothing else
  writes it.
\<close>

theorem playbackCursor_monotone:
  "nextStartTimeRef st \<le> nextStartTimeRef (run st evs)"
proof (induction evs arbitrary: st)
  case Nil
  show ?case by simp
next
  case (Cons ev evs)
  have "nextStartTimeRef st \<le> nextStartTimeRef (state_of (step ev st))"
    by (rule step_cursor)
  also have "\<dots> \<le> nextStartTimeRef (run (state_of (step ev st)) evs)"
    by (rule Cons.IH)
  finally show ?case by simp
qed

lemma stop_nodes_length: "length (fst (stop_nodes ns srcs)) = length ns"
  by (induction srcs arbitrary: ns) simp_all

lemma stop_nodes_timing:
  "i < length ns \<Longrightarrow>
     node_when (fst (stop_nodes ns srcs) ! i) = node_when (ns ! i)
     \<and> node_buffer (fst (stop_nodes ns srcs) ! i) = node_buffer (ns ! i)
     \<and> node_started (fst (stop_nodes ns srcs) ! i) = node_started (ns ! i)
     \<and> (node_stopped (ns ! i) \<longrightarrow> node_stopped (fst (stop_nodes ns srcs) ! i))"
proof (induction srcs arbitrary: ns)
  case Nil
  show ?case by simp
next
  case (Cons s rest)
  let ?ns = "ns[s := (ns ! s)\<lparr>node_stopped := True\<rparr>]"
  have len: "i < length ?ns" using Cons.prems by simp
  have same: "node_when (?ns ! i) = node_when (ns ! i)"
    "node_buffer (?ns ! i) = node_buffer (ns ! i)"
    "node_started (?ns ! i) = node_started (ns ! i)"
    "node_stopped (ns ! i) \<longrightarrow> node_stopped (?ns ! i)"
    using Cons.prems
    by (cases "s < length ns"; simp add: nth_list_update list_update_beyond)+
  show ?case
  proof (cases "node_started (ns ! s)")
    case True
    then show ?thesis using Cons.IH[OF len] same by simp
  next
    case False
    then show ?thesis by simp
  qed
qed

lemma stop_nodes_all_started:
  assumes "\<forall>s \<in> set srcs. s < length ns \<and> node_started (ns ! s)"
  shows "snd (stop_nodes ns srcs) = None
         \<and> (\<forall>s \<in> set srcs. node_stopped (fst (stop_nodes ns srcs) ! s))"
  using assms
proof (induction srcs arbitrary: ns)
  case Nil
  show ?case by simp
next
  case (Cons s rest)
  let ?ns = "ns[s := (ns ! s)\<lparr>node_stopped := True\<rparr>]"
  have s: "s < length ns" "node_started (ns ! s)" using Cons.prems by simp_all
  have "\<forall>r \<in> set rest. r < length ?ns \<and> node_started (?ns ! r)"
    using Cons.prems by (simp add: nth_list_update)
  from Cons.IH[OF this]
  have IH: "snd (stop_nodes ?ns rest) = None"
    "\<forall>r \<in> set rest. node_stopped (fst (stop_nodes ?ns rest) ! r)" by simp_all
  have "node_stopped (?ns ! s)" using s by simp
  moreover have "s < length ?ns" using s by simp
  ultimately have "node_stopped (fst (stop_nodes ?ns rest) ! s)"
    using stop_nodes_timing[of s ?ns rest] by blast
  then show ?case using IH s by simp
qed

lemma stopSession_nodes:
  "nodes (state_of (stopSession st)) = fst (stop_nodes (nodes st) (sourcesRef st))"
  by (simp add: stopSession_def Let_def close_context_frame close_transport_def
      split: option.splits prod.splits)

lemma stopSession_returns:
  assumes "sources_inv st"
  shows "\<exists>st'. stopSession st = Returns st' \<and> sourcesRef st' = []"
proof -
  have "snd (stop_nodes (nodes st) (sourcesRef st)) = None"
    using assms stop_nodes_all_started unfolding sources_inv_def by blast
  then obtain ns where "stop_nodes (nodes st) (sourcesRef st) = (ns, None)"
    by (cases "stop_nodes (nodes st) (sourcesRef st)") simp
  then show ?thesis
    by (simp add: stopSession_def Let_def close_context_frame close_transport_def
        split: option.splits)
qed

lemma onmessage_scheduled:
  assumes "outputAudioContextRef st = Some c" "audioData m = Some audio" "audio \<noteq> []"
    "decode audio = Inr bytes" "decodeAudioData bytes 24000 1 = Inr buffer"
  shows "onmessage now m st =
    st\<lparr>nextStartTimeRef := max (nextStartTimeRef st) now + duration buffer,
       nodes := nodes st @ [\<lparr>node_buffer = buffer, node_started = True,
                               node_when = max (nextStartTimeRef st) now,
                               node_stopped = False\<rparr>],
       sourcesRef := sourcesRef st @ [length (nodes st)]\<rparr>"
  using assms by (simp add: onmessage_def Let_def)

lemma onmessage_cases:
  "onmessage now m st = st
   \<or> (\<exists>e. onmessage now m st = uncaught e (st\<lparr>nextStartTimeRef := max (nextStartTimeRef st) now\<rparr>))
   \<or> (\<exists>buffer. 0 \<le> duration buffer \<and> onmessage now m st =
        st\<lparr>nextStartTimeRef := max (nextStartTimeRef st) now + duration buffer,
           nodes := nodes st @ [\<lparr>node_buffer = buffer, node_started = True,
                                   node_when = max (nextStartTimeRef st) now,
                                   node_stopped = False\<rparr>],
           sourcesRef := sourcesRef st @ [length (nodes st)]\<rparr>)"
proof (cases "audioData m")
  case None
  then show ?thesis by (simp add: onmessage_def)
next
  case (Some audio)
  show ?thesis
  proof (cases "audio = [] \<or> outputAudioContextRef st = None")
    case True
    then show ?thesis using Some by (auto simp: onmessage_def)
  next
    case False
    then obtain c where c: "outputAudioContextRef st = Some c" and ne: "audio \<noteq> []" by auto
    show ?thesis
    proof (cases "decode audio")
      case (Inl e)
      then have "onmessage now m st =
          uncaught e (st\<lparr>nextStartTimeRef := max (nextStartTimeRef st) now\<rparr>)"
        using Some c ne by (simp add: onmessage_def Let_def)
      then show ?thesis by blast
    next
      case (Inr bytes)
      show ?thesis
      proof (cases "decodeAudioData bytes 24000 1")
        case (Inl e)
        then have "onmessage now m st =
            uncaught e (st\<lparr>nextStartTimeRef := max (nextStartTimeRef st) now\<rparr>)"
          using Some c ne Inr by (simp add: onmessage_def Let_def)
        then show ?thesis by blast
      next
        case inr: (Inr buffer)
        have "0 \<le> duration buffer" using inr by (rule duration_nonneg)
        then show ?thesis
          using onmessage_scheduled[OF c Some ne Inr inr, of now] by blast
      qed
    qed
  qed
qed

lemma schedule_inv_advance:
  assumes "schedule_inv st" "nodes st' = nodes st" "nextStartTimeRef st \<le> nextStartTimeRef st'"
  shows "schedule_inv st'"
  using assms unfolding schedule_inv_def by (auto intro: order_trans)

lemma schedule_inv_append:
  assumes inv: "schedule_inv st" and w: "nextStartTimeRef st \<le> node_when n"
    and d: "0 \<le> duration (node_buffer n)"
    and ns: "nodes st' = nodes st @ [n]" and c: "nextStartTimeRef st' = node_end n"
  shows "schedule_inv st'"
proof -
  have old: "node_end (nodes st ! i) \<le> nextStartTimeRef st" if "i < length (nodes st)" for i
    using inv that unfolding schedule_inv_def by blast
  have ne: "node_when n \<le> node_end n" using d by (simp add: node_end_def)
  have 1: "node_end (nodes st' ! i) \<le> node_when (nodes st' ! Suc i)"
    if "Suc i < length (nodes st')" for i
  proof (cases "Suc i < length (nodes st)")
    case True
    then show ?thesis using inv unfolding schedule_inv_def ns by (simp add: nth_append)
  next
    case False
    then have i: "Suc i = length (nodes st)" using that ns by simp
    then have "nodes st' ! Suc i = n" "nodes st' ! i = nodes st ! i" "i < length (nodes st)"
      unfolding ns by (simp_all add: nth_append)
    then show ?thesis using old[of i] w by simp
  qed
  have 2: "node_end (nodes st' ! i) \<le> nextStartTimeRef st'" if "i < length (nodes st')" for i
  proof (cases "i < length (nodes st)")
    case True
    then have "nodes st' ! i = nodes st ! i" unfolding ns by (simp add: nth_append)
    then show ?thesis using old[OF True] w ne c by simp
  next
    case False
    then have "nodes st' ! i = n" using that unfolding ns by (simp add: nth_append)
    then show ?thesis using c by simp
  qed
  show ?thesis unfolding schedule_inv_def using 1 2 by blast
qed

lemma onmessage_schedule_inv:
  assumes "schedule_inv st"
  shows "schedule_inv (onmessage now m st)"
  using onmessage_cases[of now m st]
proof (elim disjE exE conjE)
  assume "onmessage now m st = st"
  then show ?thesis using assms by simp
next
  fix e assume "onmessage now m st = uncaught e (st\<lparr>nextStartTimeRef := max (nextStartTimeRef st) now\<rparr>)"
  then show ?thesis
    using schedule_inv_advance[OF assms, of "onmessage now m st"] by (simp add: uncaught_def)
next
  fix buffer
  assume d: "0 \<le> duration buffer" and eq: "onmessage now m st =
        st\<lparr>nextStartTimeRef := max (nextStartTimeRef st) now + duration buffer,
           nodes := nodes st @ [\<lparr>node_buffer = buffer, node_started = True,
                                   node_when = max (nextStartTimeRef st) now,
                                   node_stopped = False\<rparr>],
           sourcesRef := sourcesRef st @ [length (nodes st)]\<rparr>"
  show ?thesis
    by (rule schedule_inv_append[OF assms, where n = "\<lparr>node_buffer = buffer, node_started = True,
                                   node_when = max (nextStartTimeRef st) now,
                                   node_stopped = False\<rparr>"])
       (simp_all add: eq d node_end_def)
qed

lemma onmessage_sources_inv:
  assumes "sources_inv st"
  shows "sources_inv (onmessage now m st)"
  using onmessage_cases[of now m st]
proof (elim disjE exE conjE)
  assume "onmessage now m st = st"
  then show ?thesis using assms by simp
next
  fix e assume "onmessage now m st = uncaught e (st\<lparr>nextStartTimeRef := max (nextStartTimeRef st) now\<rparr>)"
  then show ?thesis using assms by (simp add: uncaught_def sources_inv_def)
next
  fix buffer
  assume eq: "onmessage now m st =
        st\<lparr>nextStartTimeRef := max (nextStartTimeRef st) now + duration buffer,
           nodes := nodes st @ [\<lparr>node_buffer = buffer, node_started = True,
                                   node_when = max (nextStartTimeRef st) now,
                                   node_stopped = False\<rparr>],
           sourcesRef := sourcesRef st @ [length (nodes st)]\<rparr>"
  show ?thesis using assms unfolding eq sources_inv_def by (auto simp: nth_append)
qed

lemma stopSession_schedule_inv:
  assumes "schedule_inv st"
  shows "schedule_inv (state_of (stopSession st))"
  using assms unfolding schedule_inv_def node_end_def stopSession_nodes stopSession_cursor
  by (simp add: stop_nodes_length stop_nodes_timing)

lemma stopSession_sources_inv:
  assumes "sources_inv st"
  shows "sources_inv (state_of (stopSession st))"
proof -
  obtain st' where "stopSession st = Returns st'" "sourcesRef st' = []"
    using stopSession_returns[OF assms] by blast
  then show ?thesis by (simp add: sources_inv_def)
qed

lemma schedule_inv_cong:
  "nodes st' = nodes st \<Longrightarrow> nextStartTimeRef st' = nextStartTimeRef st
   \<Longrightarrow> schedule_inv st' = schedule_inv st"
  by (simp add: schedule_inv_def)

lemma sources_inv_cong:
  "nodes st' = nodes st \<Longrightarrow> sourcesRef st' = sourcesRef st
   \<Longrightarrow> sources_inv st' = sources_inv st"
  by (simp add: sources_inv_def)

lemma step_invariants:
  assumes "schedule_inv st \<and> sources_inv st"
  shows "schedule_inv (state_of (step ev st)) \<and> sources_inv (state_of (step ev st))"
proof (cases ev)
  case (OnMessage now m)
  then show ?thesis using assms by (simp add: onmessage_schedule_inv onmessage_sources_inv)
next
  case StopSession
  then show ?thesis using assms by (simp add: stopSession_schedule_inv stopSession_sources_inv)
next
  case OnError
  let ?st = "st\<lparr>console := console st @ [''Session error''], status := ''Connection error''\<rparr>"
  have "schedule_inv ?st" "sources_inv ?st"
    using assms by (simp_all add: schedule_inv_def sources_inv_def)
  then show ?thesis using OnError
    by (simp add: onerror_def stopSession_schedule_inv stopSession_sources_inv)
next
  case (OnClose t)
  let ?st = "(close_transport t st)\<lparr>console := console st @ [''Session closed'']\<rparr>"
  have "schedule_inv ?st" "sources_inv ?st"
    using assms by (simp_all add: schedule_inv_def sources_inv_def close_transport_def)
  then show ?thesis using OnClose
    by (simp add: onclose_def stopSession_schedule_inv stopSession_sources_inv)
next
  case ToggleRecording
  have "schedule_inv (startSession st)" "sources_inv (startSession st)"
    using assms by (simp_all add: schedule_inv_def sources_inv_def startSession_def)
  then show ?thesis using ToggleRecording assms
    by (simp add: toggleRecording_def stopSession_schedule_inv stopSession_sources_inv)
next
  case ClickButton
  have "schedule_inv (startSession st)" "sources_inv (startSession st)"
    using assms by (simp_all add: schedule_inv_def sources_inv_def startSession_def)
  then show ?thesis using ClickButton assms
    by (simp add: click_button_def toggleRecording_def stopSession_schedule_inv
        stopSession_sources_inv)
next
  case (SourceEnded s)
  then show ?thesis using assms
    by (simp add: schedule_inv_def sources_inv_def source_ended_def)
next
  case (AudioProcess x)
  then show ?thesis using assms
    by (simp add: schedule_inv_def sources_inv_def onaudioprocess_def sendRealtimeInput_def
        Let_def split: sum.splits option.splits)
next
  case (ProcessResponse now tr)
  then show ?thesis using assms
    by (simp add: schedule_inv_def sources_inv_def processResponse_def uncaught_def
        Let_def split: sum.splits option.splits)
qed (use assms in \<open>simp_all add: schedule_inv_def sources_inv_def startSession_def
      connect_resolved_def connect_rejected_def startSession_catch_def
      getUserMedia_resolved_def getUserMedia_rejected_def onopen_def Let_def\<close>)

lemma initial_invariants: "schedule_inv initial_state \<and> sources_inv initial_state"
  by (simp add: schedule_inv_def sources_inv_def initial_state_def)

lemma run_invariants:
  "schedule_inv st \<and> sources_inv st \<Longrightarrow> schedule_inv (run st evs) \<and> sources_inv (run st evs)"
proof (induction evs arbitrary: st)
  case Nil
  then show ?case by simp
next
  case (Cons ev evs)
  then show ?case using step_invariants[of st ev] by simp
qed

lemmas reachable_invariants = run_invariants[OF initial_invariants]
section \<open>Scheduling, teardown and session start\<close>

text \<open>
  Claim C1. When \<open>onmessage\<close> receives an audio frame that decodes to \<open>buffer\<close> while
  an output context exists, it creates one source whose start time is the greater of
  the cursor and the clock reading, and moves the cursor to that start time plus the
  duration of the buffer. Consequently, in the list of all sources created over any
  sequence of events from the initial state, the source at position \<open>i > 0\<close> never
  starts before the source at position \<open>i - 1\<close> ends.
\<close>

theorem gapless_schedule:
  "(outputAudioContextRef st = Some c \<and> audioData m = Some audio \<and> audio \<noteq> []
      \<and> decode audio = Inr bytes \<and> decodeAudioData bytes 24000 1 = Inr buffer
    \<longrightarrow> nodes (onmessage now m st) =
          nodes st @ [\<lparr>node_buffer = buffer, node_started = True,
                        node_when = max (nextStartTimeRef st) now, node_stopped = False\<rparr>]
        \<and> nextStartTimeRef (onmessage now m st) =
            max (nextStartTimeRef st) now + duration buffer)
   \<and> (0 < i \<and> i < length (nodes (run initial_state evs))
      \<longrightarrow> node_when (nodes (run initial_state evs) ! (i - 1))
            + duration (node_buffer (nodes (run initial_state evs) ! (i - 1)))
          \<le> node_when (nodes (run initial_state evs) ! i))"
proof (intro conjI impI)
  assume a: "outputAudioContextRef st = Some c \<and> audioData m = Some audio \<and> audio \<noteq> []
      \<and> decode audio = Inr bytes \<and> decodeAudioData bytes 24000 1 = Inr buffer"
  have eq: "onmessage now m st =
    st\<lparr>nextStartTimeRef := max (nextStartTimeRef st) now + duration buffer,
       nodes := nodes st @ [\<lparr>node_buffer = buffer, node_started = True,
                               node_when = max (nextStartTimeRef st) now,
                               node_stopped = False\<rparr>],
       sourcesRef := sourcesRef st @ [length (nodes st)]\<rparr>"
    using a onmessage_scheduled[of st c m audio bytes buffer now] by blast
  show "nodes (onmessage now m st) =
          nodes st @ [\<lparr>node_buffer = buffer, node_started = True,
                        node_when = max (nextStartTimeRef st) now, node_stopped = False\<rparr>]"
    unfolding eq by simp
  show "nextStartTimeRef (onmessage now m st) = max (nextStartTimeRef st) now + duration buffer"
    unfolding eq by simp
next
  assume i: "0 < i \<and> i < length (nodes (run initial_state evs))"
  have "schedule_inv (run initial_state evs)"
    using reachable_invariants by blast
  then have "Suc (i - 1) < length (nodes (run initial_state evs)) \<longrightarrow>
     node_end (nodes (run initial_state evs) ! (i - 1))
       \<le> node_when (nodes (run initial_state evs) ! Suc (i - 1))"
    unfolding schedule_inv_def by blast
  then show "node_when (nodes (run initial_state evs) ! (i - 1))
            + duration (node_buffer (nodes (run initial_state evs) ! (i - 1)))
          \<le> node_when (nodes (run initial_state evs) ! i)"
    using i by (simp add: node_end_def)
qed


theorem gapless_schedule_witness:
  "(outputAudioContextRef (run initial_state session_events) = Some 1
      \<and> audioData silence_frame = Some (js ''AAAAAA=='') \<and> js ''AAAAAA=='' \<noteq> []
      \<and> decode (js ''AAAAAA=='') = Inr [0, 0, 0, 0]
      \<and> decodeAudioData [0, 0, 0, 0] 24000 1 = Inr silence_buffer)
   \<and> nodes (onmessage (1 / 2) silence_frame (run initial_state session_events)) =
        [\<lparr>node_buffer = silence_buffer, node_started = True,
          node_when = 1 / 2, node_stopped = False\<rparr>]
   \<and> nextStartTimeRef (onmessage (1 / 2) silence_frame (run initial_state session_events)) =
        1 / 2 + 1 / 12000
   \<and> (0 < (2 :: nat) \<and> 2 < length (nodes (run initial_state playback_events)))
   \<and> node_when (nodes (run initial_state playback_events) ! 1)
        + duration (node_buffer (nodes (run initial_state playback_events) ! 1))
      \<le> node_when (nodes (run initial_state playback_events) ! 2)"
proof -
  have h1: "outputAudioContextRef (run initial_state session_events) = Some 1
      \<and> audioData silence_frame = Some (js ''AAAAAA=='') \<and> js ''AAAAAA=='' \<noteq> []
      \<and> decode (js ''AAAAAA=='') = Inr [0, 0, 0, 0]
      \<and> decodeAudioData [0, 0, 0, 0] 24000 1 = Inr silence_buffer"
    by code_simp
  have h2: "0 < (2 :: nat) \<and> 2 < length (nodes (run initial_state playback_events))"
    by code_simp
  have c: "nextStartTimeRef (run initial_state session_events) = 0"
    "nodes (run initial_state session_events) = []"
    "duration silence_buffer = 1 / 12000"
    by code_simp+
  note T = gapless_schedule[of "run initial_state session_events" 1 silence_frame
      "js ''AAAAAA==''" "[0, 0, 0, 0]" silence_buffer "1 / 2" 2 playback_events]
  from T h1 have
    "nodes (onmessage (1 / 2) silence_frame (run initial_state session_events)) =
          nodes (run initial_state session_events) @ [\<lparr>node_buffer = silence_buffer, node_started = True,
            node_when = max (nextStartTimeRef (run initial_state session_events)) (1 / 2),
            node_stopped = False\<rparr>]
        \<and> nextStartTimeRef (onmessage (1 / 2) silence_frame (run initial_state session_events)) =
            max (nextStartTimeRef (run initial_state session_events)) (1 / 2) + duration silence_buffer"
    by blast
  then have a: "nodes (onmessage (1 / 2) silence_frame (run initial_state session_events)) =
        [\<lparr>node_buffer = silence_buffer, node_started = True,
          node_when = 1 / 2, node_stopped = False\<rparr>]
   \<and> nextStartTimeRef (onmessage (1 / 2) silence_frame (run initial_state session_events)) =
        1 / 2 + 1 / 12000"
    by (simp add: c)
  from T h2 have b: "node_when (nodes (run initial_state playback_events) ! (2 - 1))
        + duration (node_buffer (nodes (run initial_state playback_events) ! (2 - 1)))
      \<le> node_when (nodes (run initial_state playback_events) ! 2)"
    by blast
  show ?thesis using h1 h2 a b by simp
qed

text \<open>
  Claim C3, as amended. In every state the component can reach (so also after earlier
  calls of \<open>stopSession\<close> and after the connection closed or failed), \<open>stopSession\<close>
  returns without throwing; afterwards every source that was in \<open>sourcesRef\<close> is
  stopped and the set is empty. The cursor \<open>nextStartTimeRef\<close> keeps its value.
\<close>

theorem stopSession_teardown:
  "\<exists>st'. stopSession (run initial_state evs) = Returns st'
      \<and> sourcesRef st' = []
      \<and> (\<forall>s \<in> set (sourcesRef (run initial_state evs)). node_stopped (nodes st' ! s))
      \<and> nextStartTimeRef st' = nextStartTimeRef (run initial_state evs)"
proof -
  let ?st = "run initial_state evs"
  have inv: "sources_inv ?st" using reachable_invariants by blast
  then obtain st' where st': "stopSession ?st = Returns st'" "sourcesRef st' = []"
    using stopSession_returns by blast
  have "nodes st' = fst (stop_nodes (nodes ?st) (sourcesRef ?st))"
    using stopSession_nodes[of ?st] st' by simp
  moreover have "\<forall>s \<in> set (sourcesRef ?st). node_stopped (fst (stop_nodes (nodes ?st) (sourcesRef ?st)) ! s)"
    using inv stop_nodes_all_started unfolding sources_inv_def by blast
  moreover have "nextStartTimeRef st' = nextStartTimeRef ?st"
    using stopSession_cursor[of ?st] st' by simp
  ultimately show ?thesis using st' by simp
qed

theorem stopSession_teardown_witness:
  "sourcesRef (run initial_state playback_events) = [0, 1, 2]
   \<and> (\<exists>st'. stopSession (run initial_state playback_events) = Returns st'
      \<and> sourcesRef st' = []
      \<and> (\<forall>s \<in> set [0, 1, 2]. node_stopped (nodes st' ! s))
      \<and> nextStartTimeRef st' = nextStartTimeRef (run initial_state playback_events))
   \<and> (\<exists>st'. stopSession (run initial_state (playback_events @ [StopSession, OnClose 0]))
              = Returns st'
      \<and> sourcesRef st' = [])"
proof -
  have s: "sourcesRef (run initial_state playback_events) = [0, 1, 2]"
    by code_simp
  show ?thesis
    using stopSession_teardown[of playback_events]
      stopSession_teardown[of "playback_events @ [StopSession, OnClose 0]"]
    unfolding s by auto
qed

text \<open>
  Claim C3, as stated, fails on the cursor: after three frames have been scheduled,
  one call of \<open>stopSession\<close>, and a second one, leave it at \<open>3001/6000\<close>, not at zero.
\<close>

theorem stopSession_keeps_cursor:
  "nextStartTimeRef (state_of (stopSession (run initial_state playback_events))) = 3001 / 6000
   \<and> nextStartTimeRef (state_of (stopSession (state_of (stopSession
        (run initial_state playback_events))))) = 3001 / 6000
   \<and> (3001 / 6000 :: real) \<noteq> 0"
  by code_simp

text \<open>
  Claim C2, as amended. With a session handle in \<open>sessionRef\<close>, \<open>startSession\<close> changes
  nothing. While \<open>isLoading\<close> is set (a connection attempt is in flight), a click on the
  button, the only caller of \<open>startSession\<close>, changes nothing.
\<close>

theorem startSession_guard:
  "(sessionRef st \<noteq> None \<longrightarrow> startSession st = st)
   \<and> (isLoading st \<longrightarrow> click_button st = Returns st)"
  by (simp add: startSession_def click_button_def)

theorem startSession_guard_witness:
  "sessionRef (run initial_state session_events) \<noteq> None
   \<and> startSession (run initial_state session_events) = run initial_state session_events
   \<and> isLoading (startSession initial_state)
   \<and> click_button (startSession initial_state) = Returns (startSession initial_state)"
proof -
  have h1: "sessionRef (run initial_state session_events) \<noteq> None" by code_simp
  have h2: "isLoading (startSession initial_state)" by code_simp
  show ?thesis
    using startSession_guard[of "run initial_state session_events"]
      startSession_guard[of "startSession initial_state"] h1 h2 by blast
qed

text \<open>
  Claim C2, as stated, fails while connecting: right after a first call from the
  initial state the handle is still empty, and a second call of \<open>startSession\<close> opens a
  second connection.
\<close>

theorem startSession_while_connecting:
  "isLoading (startSession initial_state)
   \<and> sessionRef (startSession initial_state) = None
   \<and> transports (startSession initial_state) = [\<lparr>t_state = Pending, t_sent = []\<rparr>]
   \<and> transports (startSession (startSession initial_state)) =
       [\<lparr>t_state = Pending, t_sent = []\<rparr>, \<lparr>t_state = Pending, t_sent = []\<rparr>]
   \<and> startSession (startSession initial_state) \<noteq> startSession initial_state"
  by (simp add: startSession_def initial_state_def)

text \<open>
  Claim C8 at the failing input: the connection opens and its promise resolves, then
  \<open>getUserMedia\<close> is rejected. The \<open>catch\<close> block sets the status and nothing else: the
  session handle stays and the connection stays open.
\<close>

theorem microphone_denied_leaves_transport_open:
  "sessionRef (run initial_state [StartSession, OnOpen 0, ConnectResolved 0, MicDenied]) = Some 0
   \<and> transports (run initial_state [StartSession, OnOpen 0, ConnectResolved 0, MicDenied]) =
       [\<lparr>t_state = Open, t_sent = []\<rparr>]
   \<and> status (run initial_state [StartSession, OnOpen 0, ConnectResolved 0, MicDenied]) =
       ''Microphone access denied''
   \<and> isRecording (run initial_state [StartSession, OnOpen 0, ConnectResolved 0, MicDenied])"
  by code_simp
section \<open>The parser never runs out of fuel\<close>

text \<open>
  Every parser returns a rest that is no longer than its input, and the fuel given by
  \<open>JSON_parse\<close> exceeds what the recursion can use; so \<open>JSON_parse\<close> fails with
  \<open>SyntaxError\<close> only.
\<close>

lemma then_parsed_eq_Parsed:
  "then_parsed f p = Parsed v rest \<longleftrightarrow> (\<exists>x. p = Parsed x rest \<and> v = f x)"
  by (cases p) auto

lemma then_parsed_eq_OutOfFuel:
  "then_parsed f p = OutOfFuel \<longleftrightarrow> p = OutOfFuel"
  by (cases p) auto

lemma length_skip_ws: "length (skip_ws s) \<le> length s"
  by (simp add: skip_ws_def length_dropWhile_le)

lemma skip_ws_Cons_length: "skip_ws s = c # r \<Longrightarrow> length r < length s"
  using length_skip_ws[of s] by simp

lemma parse_chars_rest: "parse_chars s = Parsed x rest \<Longrightarrow> length rest < length s"
proof (induction s arbitrary: x rest rule: length_induct)
  case (1 s)
  have IH: "length r < length ys" if "length ys < length s" "parse_chars ys = Parsed y r" for ys y r
    using "1.IH" that by blast
  show ?case
  proof (cases s)
    case Nil
    then show ?thesis using "1.prems" by simp
  next
    case (Cons c cs)
    consider "c = 34" | "c \<noteq> 34" "c \<noteq> 92" | "c = 92" by blast
    then show ?thesis
    proof cases
      case 1
      then show ?thesis using "1.prems" Cons by simp
    next
      case 2
      then obtain y where "parse_chars cs = Parsed y rest"
        using "1.prems" Cons by (auto simp: then_parsed_eq_Parsed split: if_splits)
      then have "length rest < length cs" using IH[of cs] Cons by simp
      then show ?thesis using Cons by simp
    next
      case 3
      then obtain e cs1 where cs: "cs = e # cs1"
        using "1.prems" Cons by (cases cs) auto
      show ?thesis
      proof (cases "e = 117")
        case False
        then obtain y where "parse_chars cs1 = Parsed y rest"
          using "1.prems" Cons 3 cs
          by (auto simp: then_parsed_eq_Parsed split: option.splits)
        then have "length rest < length cs1" using IH[of cs1] Cons cs by simp
        then show ?thesis using Cons cs by simp
      next
        case True
        then obtain h1 h2 h3 h4 cs2 where cs1: "cs1 = h1 # h2 # h3 # h4 # cs2"
          using "1.prems" Cons 3 cs by (auto split: list.splits)
        then obtain y where "parse_chars cs2 = Parsed y rest"
          using "1.prems" Cons 3 cs True
          by (auto simp: then_parsed_eq_Parsed split: option.splits)
        then have "length rest < length cs2" using IH[of cs2] Cons cs cs1 by simp
        then show ?thesis using Cons cs cs1 by simp
      qed
    qed
  qed
qed

lemma parse_sign_rest: "parse_sign s = (neg, r) \<Longrightarrow> length r \<le> length s"
  by (auto simp: parse_sign_def split: list.splits if_splits)

lemma parse_fraction_rest: "parse_fraction s = Some (fp, r) \<Longrightarrow> length r \<le> length s"
  by (auto simp: parse_fraction_def split: list.splits if_splits
      intro: le_SucI length_dropWhile_le)

lemma parse_exponent_rest: "parse_exponent s = Some (ex, r) \<Longrightarrow> length r \<le> length s"
  by (auto simp: parse_exponent_def Let_def split: list.splits if_splits
      intro: le_SucI length_dropWhile_le)

lemma parse_number_rest: "parse_number s = Parsed x rest \<Longrightarrow> length rest \<le> length s"
proof -
  assume a: "parse_number s = Parsed x rest"
  obtain neg s1 where s1: "parse_sign s = (neg, s1)" by (cases "parse_sign s")
  from a s1 obtain fp s3 where f: "parse_fraction (dropWhile is_digit s1) = Some (fp, s3)"
    by (auto simp: parse_number_def Let_def split: if_splits option.splits)
  from a s1 f obtain ex where e: "parse_exponent s3 = Some (ex, rest)"
    by (auto simp: parse_number_def Let_def split: if_splits option.splits)
  have "length rest \<le> length s3" using e by (rule parse_exponent_rest)
  also have "\<dots> \<le> length (dropWhile is_digit s1)" using f by (rule parse_fraction_rest)
  also have "\<dots> \<le> length s1" by (rule length_dropWhile_le)
  also have "\<dots> \<le> length s" using s1 by (rule parse_sign_rest)
  finally show ?thesis .
qed

lemma parse_rest:
  "(\<forall>s v rest. parse_value n s = Parsed v rest \<longrightarrow> length rest \<le> length s)
   \<and> (\<forall>s vs rest. parse_elements n s = Parsed vs rest \<longrightarrow> length rest \<le> length s)
   \<and> (\<forall>s ms rest. parse_members n s = Parsed ms rest \<longrightarrow> length rest \<le> length s)"
proof (induction n)
  case 0
  show ?case by simp
next
  case (Suc n)
  have IHv: "length rest \<le> length s" if "parse_value n s = Parsed v rest" for s v rest
    using Suc that by blast
  have IHe: "length rest \<le> length s" if "parse_elements n s = Parsed vs rest" for s vs rest
    using Suc that by blast
  have IHm: "length rest \<le> length s" if "parse_members n s = Parsed ms rest" for s ms rest
    using Suc that by blast
  have V: "length rest \<le> length s" if a: "parse_value (Suc n) s = Parsed v rest" for s v rest
  proof -
    obtain c r where w: "skip_ws s = c # r" using a by (cases "skip_ws s") auto
    have r: "length r < length s" using w by (rule skip_ws_Cons_length)
    consider (obj) "c = 123" | (arr) "c \<noteq> 123" "c = 91" | (str) "c \<noteq> 123" "c \<noteq> 91" "c = 34"
      | (other) "c \<noteq> 123" "c \<noteq> 91" "c \<noteq> 34" by blast
    then show ?thesis
    proof cases
      case obj
      then obtain c1 r1 where w1: "skip_ws r = c1 # r1" using a w by (cases "skip_ws r") auto
      have r1: "length r1 < length r" using w1 by (rule skip_ws_Cons_length)
      show ?thesis
      proof (cases "c1 = 125")
        case True
        then show ?thesis using a w obj w1 r r1 by simp
      next
        case False
        then obtain ms where "parse_members n r = Parsed ms rest"
          using a w obj w1 by (auto simp: then_parsed_eq_Parsed)
        then show ?thesis using IHm r by fastforce
      qed
    next
      case arr
      then obtain c1 r1 where w1: "skip_ws r = c1 # r1" using a w by (cases "skip_ws r") auto
      have r1: "length r1 < length r" using w1 by (rule skip_ws_Cons_length)
      show ?thesis
      proof (cases "c1 = 93")
        case True
        then show ?thesis using a w arr w1 r r1 by simp
      next
        case False
        then obtain vs where "parse_elements n r = Parsed vs rest"
          using a w arr w1 by (auto simp: then_parsed_eq_Parsed)
        then show ?thesis using IHe r by fastforce
      qed
    next
      case str
      then obtain x where "parse_chars r = Parsed x rest"
        using a w by (auto simp: then_parsed_eq_Parsed)
      then show ?thesis using parse_chars_rest r by fastforce
    next
      case other
      show ?thesis
      proof (cases "c = 45 \<or> is_digit c")
        case True
        then obtain x where "parse_number (c # r) = Parsed x rest"
          using a w other by (auto simp: then_parsed_eq_Parsed)
        then have "length rest \<le> length (c # r)" by (rule parse_number_rest)
        then show ?thesis using r by simp
      next
        case False
        then have "rest = drop 4 (c # r) \<or> rest = drop 5 (c # r)"
          using a w other by (auto split: if_splits)
        then show ?thesis using r by auto
      qed
    qed
  qed
  have E: "length rest \<le> length s" if a: "parse_elements (Suc n) s = Parsed vs rest" for s vs rest
  proof -
    obtain v r0 where v: "parse_value n s = Parsed v r0"
      using a by (cases "parse_value n s") auto
    have r0: "length r0 \<le> length s" using v by (rule IHv)
    obtain c r where w: "skip_ws r0 = c # r" using a v by (cases "skip_ws r0") auto
    have r: "length r < length r0" using w by (rule skip_ws_Cons_length)
    show ?thesis
    proof (cases "c = 44")
      case True
      then obtain xs where "parse_elements n r = Parsed xs rest"
        using a v w by (auto simp: then_parsed_eq_Parsed)
      then show ?thesis using IHe r r0 by fastforce
    next
      case False
      then have "rest = r" using a v w by (auto split: if_splits)
      then show ?thesis using r r0 by simp
    qed
  qed
  have M: "length rest \<le> length s" if a: "parse_members (Suc n) s = Parsed ms rest" for s ms rest
  proof -
    obtain c r where w: "skip_ws s = c # r" using a by (cases "skip_ws s") auto
    have r: "length r < length s" using w by (rule skip_ws_Cons_length)
    have c: "c = 34" using a w by (auto split: if_splits)
    obtain key rk where k: "parse_chars r = Parsed key rk"
      using a w c by (cases "parse_chars r") auto
    have rk: "length rk < length r" using k by (rule parse_chars_rest)
    obtain c1 r1 where w1: "skip_ws rk = c1 # r1" using a w c k by (cases "skip_ws rk") auto
    have r1: "length r1 < length rk" using w1 by (rule skip_ws_Cons_length)
    have c1: "c1 = 58" using a w c k w1 by (auto split: if_splits)
    obtain v r2 where v: "parse_value n r1 = Parsed v r2"
      using a w c k w1 c1 by (cases "parse_value n r1") auto
    have r2: "length r2 \<le> length r1" using v by (rule IHv)
    obtain c2 r3 where w2: "skip_ws r2 = c2 # r3"
      using a w c k w1 c1 v by (cases "skip_ws r2") auto
    have r3: "length r3 < length r2" using w2 by (rule skip_ws_Cons_length)
    show ?thesis
    proof (cases "c2 = 44")
      case True
      then obtain xs where "parse_members n r3 = Parsed xs rest"
        using a w c k w1 c1 v w2 by (auto simp: then_parsed_eq_Parsed)
      then have "length rest \<le> length r3" by (rule IHm)
      then show ?thesis using r rk r1 r2 r3 by simp
    next
      case False
      then have "rest = r3" using a w c k w1 c1 v w2 by (auto split: if_splits)
      then show ?thesis using r rk r1 r2 r3 by simp
    qed
  qed
  show ?case using V E M by blast
qed

lemma parse_chars_fuel: "parse_chars s \<noteq> OutOfFuel"
proof (induction s rule: length_induct)
  case (1 s)
  have IH: "parse_chars ys \<noteq> OutOfFuel" if "length ys < length s" for ys
    using "1.IH" that by blast
  show ?case
  proof (cases s)
    case Nil
    then show ?thesis by simp
  next
    case (Cons c cs)
    have a: "parse_chars cs \<noteq> OutOfFuel" using IH[of cs] Cons by simp
    consider "c = 34" | "c \<noteq> 34" "c \<noteq> 92" | "c = 92" by blast
    then show ?thesis
    proof cases
      case 1
      then show ?thesis using Cons by simp
    next
      case 2
      then show ?thesis using Cons a by (simp add: then_parsed_eq_OutOfFuel)
    next
      case 3
      show ?thesis
      proof (cases cs)
        case Nil
        then show ?thesis using Cons 3 by simp
      next
        case cs: (Cons e cs1)
        have b: "parse_chars cs1 \<noteq> OutOfFuel" using IH[of cs1] Cons cs by simp
        show ?thesis
        proof (cases "e = 117")
          case False
          then show ?thesis using Cons 3 cs b
            by (simp add: then_parsed_eq_OutOfFuel split: option.splits)
        next
          case True
          show ?thesis
          proof (cases "\<exists>h1 h2 h3 h4 cs2. cs1 = h1 # h2 # h3 # h4 # cs2")
            case False
            then have "parse_chars s = Malformed"
              using Cons 3 cs True by (auto split: list.splits)
            then show ?thesis by simp
          next
            case ex: True
            then obtain h1 h2 h3 h4 cs2 where cs1: "cs1 = h1 # h2 # h3 # h4 # cs2" by blast
            have c: "parse_chars cs2 \<noteq> OutOfFuel" using IH[of cs2] Cons cs cs1 by simp
            show ?thesis using Cons 3 cs True cs1 c
              by (simp add: then_parsed_eq_OutOfFuel split: option.splits)
          qed
        qed
      qed
    qed
  qed
qed

lemma parse_number_fuel: "parse_number s \<noteq> OutOfFuel"
  by (auto simp: parse_number_def Let_def split: prod.splits option.splits)

lemma parse_fuel:
  "(\<forall>s. 2 * length s < n \<longrightarrow> parse_value n s \<noteq> OutOfFuel)
   \<and> (\<forall>s. 2 * length s + 1 < n \<longrightarrow> parse_elements n s \<noteq> OutOfFuel)
   \<and> (\<forall>s. 2 * length s + 1 < n \<longrightarrow> parse_members n s \<noteq> OutOfFuel)"
proof (induction n)
  case 0
  show ?case by simp
next
  case (Suc n)
  have IHv: "parse_value n s \<noteq> OutOfFuel" if "2 * length s < n" for s
    using Suc that by blast
  have IHe: "parse_elements n s \<noteq> OutOfFuel" if "2 * length s + 1 < n" for s
    using Suc that by blast
  have IHm: "parse_members n s \<noteq> OutOfFuel" if "2 * length s + 1 < n" for s
    using Suc that by blast
  have V: "parse_value (Suc n) s \<noteq> OutOfFuel" if n: "2 * length s < Suc n" for s
  proof (cases "skip_ws s")
    case Nil
    then show ?thesis by simp
  next
    case (Cons c r)
    have "length r < length s" using Cons by (rule skip_ws_Cons_length)
    then have "2 * length r + 1 < n" using n by simp
    then have "parse_elements n r \<noteq> OutOfFuel" "parse_members n r \<noteq> OutOfFuel"
      using IHe IHm by blast+
    then show ?thesis using Cons
      by (cases "skip_ws r")
         (simp_all add: then_parsed_eq_OutOfFuel parse_chars_fuel parse_number_fuel)
  qed
  have E: "parse_elements (Suc n) s \<noteq> OutOfFuel" if n: "2 * length s + 1 < Suc n" for s
  proof (cases "parse_value n s")
    case (Parsed v r0)
    have r0: "length r0 \<le> length s" using Parsed parse_rest by blast
    show ?thesis
    proof (cases "skip_ws r0")
      case Nil
      then show ?thesis using Parsed by simp
    next
      case (Cons c r)
      have "length r < length r0" using Cons by (rule skip_ws_Cons_length)
      then have "2 * length r + 1 < n" using n r0 by simp
      then have "parse_elements n r \<noteq> OutOfFuel" by (rule IHe)
      then show ?thesis using Parsed Cons by (simp add: then_parsed_eq_OutOfFuel)
    qed
  next
    case Malformed
    then show ?thesis by simp
  next
    case OutOfFuel
    then show ?thesis using IHv[of s] n by simp
  qed
  have M: "parse_members (Suc n) s \<noteq> OutOfFuel" if n: "2 * length s + 1 < Suc n" for s
  proof (cases "skip_ws s")
    case Nil
    then show ?thesis by simp
  next
    case (Cons c r)
    have r: "length r < length s" using Cons by (rule skip_ws_Cons_length)
    show ?thesis
    proof (cases "parse_chars r")
      case (Parsed key rk)
      have rk: "length rk < length r" using Parsed by (rule parse_chars_rest)
      show ?thesis
      proof (cases "skip_ws rk")
        case Nil
        then show ?thesis using Cons Parsed by simp
      next
        case w1: (Cons c1 r1)
        have r1: "length r1 < length rk" using w1 by (rule skip_ws_Cons_length)
        show ?thesis
        proof (cases "parse_value n r1")
          case v: (Parsed v r2)
          have r2: "length r2 \<le> length r1" using v parse_rest by blast
          show ?thesis
          proof (cases "skip_ws r2")
            case Nil
            then show ?thesis using Cons Parsed w1 v by simp
          next
            case w2: (Cons c2 r3)
            have "length r3 < length r2" using w2 by (rule skip_ws_Cons_length)
            then have "2 * length r3 + 1 < n" using n r rk r1 r2 by simp
            then have "parse_members n r3 \<noteq> OutOfFuel" by (rule IHm)
            then show ?thesis using Cons Parsed w1 v w2
              by (simp add: then_parsed_eq_OutOfFuel)
          qed
        next
          case Malformed
          then show ?thesis using Cons Parsed w1 by simp
        next
          case OutOfFuel
          have "2 * length r1 < n" using n r rk r1 by simp
          then show ?thesis using OutOfFuel IHv by blast
        qed
      qed
    next
      case Malformed
      then show ?thesis using Cons by simp
    next
      case OutOfFuel
      then show ?thesis using parse_chars_fuel by blast
    qed
  qed
  show ?case using V E M by blast
qed

lemma parse_fuel_enough: "parse_value (2 * length s + 2) s \<noteq> OutOfFuel"
  using parse_fuel[of "2 * length s + 2"] by simp

lemma JSON_parse_throws_SyntaxError: "JSON_parse s = Inl e \<Longrightarrow> e = SyntaxError"
  using parse_fuel_enough[of s]
  by (cases "parse_value (2 * length s + 2) s") (auto simp: JSON_parse_def split: if_splits)
section \<open>Response extraction\<close>

text \<open>
  The pattern finds no span exactly when no closing brace comes after an opening one.
\<close>

lemma match_json_block_None_iff:
  "match_json_block t = None \<longleftrightarrow>
     \<not> (\<exists>i j. i < j \<and> j < length t \<and> t ! i = 123 \<and> t ! j = 125)"
proof -
  let ?pre = "takeWhile (\<lambda>c. c \<noteq> 123) t"
  let ?suf = "dropWhile (\<lambda>c. c \<noteq> 123) t"
  have t: "t = ?pre @ ?suf" by simp
  have pre: "t ! i \<noteq> 123" if "i < length ?pre" for i
  proof -
    have "?pre ! i \<in> set ?pre" using that by simp
    then have "?pre ! i \<noteq> 123" by (auto dest: set_takeWhileD)
    then show ?thesis using takeWhile_nth[OF that] by simp
  qed
  show ?thesis
  proof (cases ?suf)
    case Nil
    then have no: "\<forall>x \<in> set t. x \<noteq> 123" by simp
    have "False" if "i < j" "j < length t" "t ! i = 123" for i j
    proof -
      have "i < length t" using that(1,2) by simp
      then have "t ! i \<in> set t" by (rule nth_mem)
      then show False using no that(3) by auto
    qed
    then have "\<not> (\<exists>i j. i < j \<and> j < length t \<and> t ! i = 123 \<and> t ! j = 125)"
      by blast
    moreover have "match_json_block t = None"
      unfolding match_json_block_def Nil by simp
    ultimately show ?thesis by simp
  next
    case (Cons b rest)
    have b: "b = 123" using Cons hd_dropWhile[of "\<lambda>c. c \<noteq> 123" t] by simp
    have tt: "t = ?pre @ 123 # rest" using t Cons b by simp
    have nth_rest: "t ! (length ?pre + Suc k) = rest ! k" for k
      by (subst tt) (simp add: nth_append)
    have len: "length t = length ?pre + Suc (length rest)"
      by (subst tt) simp
    have m: "match_json_block t = None \<longleftrightarrow> 125 \<notin> set rest"
      unfolding match_json_block_def Cons by simp
    have "(\<exists>i j. i < j \<and> j < length t \<and> t ! i = 123 \<and> t ! j = 125) \<longleftrightarrow> 125 \<in> set rest"
    proof
      assume "\<exists>i j. i < j \<and> j < length t \<and> t ! i = 123 \<and> t ! j = 125"
      then obtain i j where ij: "i < j" "j < length t" "t ! i = 123" "t ! j = 125" by blast
      have "length ?pre \<le> i" using pre[of i] ij(3) by (cases "i < length ?pre") auto
      then have k: "j = length ?pre + Suc (j - Suc (length ?pre))" using ij(1) by simp
      define k where "k = j - Suc (length ?pre)"
      have k: "j = length ?pre + Suc k" using k by (simp add: k_def)
      then have "k < length rest" using ij(2) len by simp
      moreover have "rest ! k = 125" using nth_rest[of k] k ij(4) by simp
      ultimately show "125 \<in> set rest" using nth_mem[of k rest] by simp
    next
      assume "125 \<in> set rest"
      then obtain k where k: "k < length rest" "rest ! k = 125"
        unfolding in_set_conv_nth by blast
      have "t ! length ?pre = 123" by (subst tt) (simp add: nth_append)
      moreover have "t ! (length ?pre + Suc k) = 125" using nth_rest[of k] k by simp
      moreover have "length ?pre + Suc k < length t" using k len by simp
      ultimately show "\<exists>i j. i < j \<and> j < length t \<and> t ! i = 123 \<and> t ! j = 125"
        by (intro exI[of _ "length ?pre"] exI[of _ "length ?pre + Suc k"]) simp
    qed
    then show ?thesis using m by simp
  qed
qed
lemma chart_block: "match_json_block transcript_with_chart = Some (drop 14 transcript_with_chart)"
  by code_simp

lemma chart_parse: "JSON_parse (drop 14 transcript_with_chart) = Inr chart_result"
  by code_simp

lemma chart_insight: "insight_of chart_result = Inr (JString (js ''x''))"
  by code_simp

lemma spoken_reply_no_block: "match_json_block spoken_reply = None"
  by code_simp

text \<open>
  Claim C4. On the transcript \<open>Sales are up. {...}\<close> the extractor stores the parsed
  object, whose \<open>title\<close> is \<open>t\<close>, as the last response and puts an assistant message
  with content \<open>x\<close> in front of the log. On a transcript in which the pattern finds
  no brace-delimited span it puts an assistant message with the whole transcript in
  front of the log and changes nothing else, so no result is emitted.
\<close>

theorem extractor_examples:
  "processResponse now transcript_with_chart st =
     st\<lparr>lastResponse := Some chart_result, status := ''Analysis complete'',
        history := \<lparr>role = Assistant, content = JString (js ''x''), timestamp = now\<rparr> # history st\<rparr>
   \<and> (match_json_block t = None \<longrightarrow>
        processResponse now t st =
          st\<lparr>history := \<lparr>role = Assistant, content = JString t, timestamp = now\<rparr> # history st\<rparr>)"
  by (simp add: processResponse_def chart_block chart_parse chart_insight)

theorem extractor_examples_witness:
  "match_json_block spoken_reply = None
   \<and> processResponse 7 spoken_reply initial_state =
        initial_state\<lparr>history := [\<lparr>role = Assistant, content = JString spoken_reply, timestamp = 7\<rparr>]\<rparr>
   \<and> lastResponse (processResponse 7 spoken_reply initial_state) = None
   \<and> lastResponse (processResponse 7 transcript_with_chart initial_state) = Some chart_result"
proof -
  have h: "history initial_state = []" "lastResponse initial_state = None"
    by (simp_all add: initial_state_def)
  show ?thesis
    using extractor_examples[of 7 initial_state spoken_reply] spoken_reply_no_block h
    by simp
qed

text \<open>
  Claim C10. A call of the extractor either leaves the log as it was or puts one
  message in front of it, the earlier entries unchanged behind; and when the pattern
  finds no brace-delimited span the last response is left as it was.
\<close>

theorem extractor_frame:
  "(history (processResponse now t st) = history st
     \<or> (\<exists>m. history (processResponse now t st) = m # history st))
   \<and> (match_json_block t = None \<longrightarrow>
        lastResponse (processResponse now t st) = lastResponse st)"
  by (simp add: processResponse_def uncaught_def Let_def split: option.splits sum.splits)

theorem extractor_frame_witness:
  "match_json_block spoken_reply = None
   \<and> lastResponse (processResponse 8 spoken_reply (processResponse 7 transcript_with_chart initial_state))
       = Some chart_result
   \<and> history (processResponse 8 spoken_reply (processResponse 7 transcript_with_chart initial_state))
       = [\<lparr>role = Assistant, content = JString spoken_reply, timestamp = 8\<rparr>,
          \<lparr>role = Assistant, content = JString (js ''x''), timestamp = 7\<rparr>]"
proof -
  let ?st = "processResponse 7 transcript_with_chart initial_state"
  have 1: "lastResponse ?st = Some chart_result"
    "history ?st = [\<lparr>role = Assistant, content = JString (js ''x''), timestamp = 7\<rparr>]"
    by (simp_all add: processResponse_def chart_block chart_parse chart_insight initial_state_def)
  have 2: "history (processResponse 8 spoken_reply ?st) =
      \<lparr>role = Assistant, content = JString spoken_reply, timestamp = 8\<rparr> # history ?st"
    by (simp add: processResponse_def spoken_reply_no_block)
  show ?thesis
    using extractor_frame[of 8 spoken_reply ?st] spoken_reply_no_block 1 2 by simp
qed

lemma match_json_block_brace:
  "match_json_block t = Some block \<Longrightarrow> \<exists>r. block = 123 # r"
proof -
  assume a: "match_json_block t = Some block"
  show ?thesis
  proof (cases "dropWhile (\<lambda>c. c \<noteq> 123) t")
    case Nil
    show ?thesis using a unfolding match_json_block_def Nil by simp
  next
    case (Cons b rest)
    then have "b = 123" using hd_dropWhile[of "\<lambda>c. c \<noteq> 123" t] by simp
    then show ?thesis using a Cons by (auto simp: match_json_block_def split: if_splits)
  qed
qed

lemma then_parsed_Parsed:
  "then_parsed f p = Parsed v rest \<Longrightarrow> \<exists>x. v = f x"
  by (cases p) auto

lemma parse_value_brace:
  "parse_value n (123 # r) = Parsed v rest \<Longrightarrow> \<exists>members. v = JObject members"
proof (cases n)
  case 0
  assume "parse_value n (123 # r) = Parsed v rest"
  then show ?thesis using 0 by simp
next
  case (Suc k)
  assume a: "parse_value n (123 # r) = Parsed v rest"
  have ws: "skip_ws (123 # r) = 123 # r" by (simp add: skip_ws_def json_ws_def)
  show ?thesis
  proof (cases "skip_ws r")
    case Nil
    then show ?thesis using a Suc ws by simp
  next
    case (Cons c1 r1)
    then show ?thesis using a Suc ws
      by (auto split: if_splits dest: then_parsed_Parsed)
  qed
qed

lemma JSON_parse_brace:
  "JSON_parse (123 # r) = Inr v \<Longrightarrow> \<exists>members. v = JObject members"
proof -
  assume a: "JSON_parse (123 # r) = Inr v"
  show ?thesis
  proof (cases "parse_value (2 * length (123 # r) + 2) (123 # r)")
    case (Parsed x rest)
    then have "x = v" using a unfolding JSON_parse_def by (simp split: if_splits)
    then show ?thesis using Parsed parse_value_brace by blast
  next
    case Malformed
    then show ?thesis using a unfolding JSON_parse_def by simp
  next
    case OutOfFuel
    then show ?thesis using a unfolding JSON_parse_def by simp
  qed
qed

text \<open>
  Claim C5, as amended. When the pattern finds a span: if \<open>JSON.parse\<close> throws on it,
  the error is caught and logged and nothing else changes (no message, no result); if
  it parses, the value is an object and is taken without any validation: it becomes
  the last response and a message with its \<open>insight\<close> member (\<open>undefined\<close> when there
  is none) is put in front of the log.
\<close>

theorem extractor_span_handling:
  "match_json_block t = Some block \<longrightarrow>
     (\<forall>e. JSON_parse block = Inl e \<longrightarrow>
        processResponse now t st = st\<lparr>console := console st @ [''Failed to parse response'']\<rparr>)
     \<and> (\<forall>v. JSON_parse block = Inr v \<longrightarrow>
          (\<exists>members. v = JObject members
             \<and> processResponse now t st =
                 st\<lparr>lastResponse := Some v, status := ''Analysis complete'',
                    history := \<lparr>role = Assistant,
                                 content = (case map_of (rev members) (js ''insight'') of
                                              None \<Rightarrow> JUndefined | Some x \<Rightarrow> x),
                                 timestamp = now\<rparr> # history st\<rparr>))"
proof (intro impI conjI allI)
  fix e assume "match_json_block t = Some block" "JSON_parse block = Inl e"
  then show "processResponse now t st = st\<lparr>console := console st @ [''Failed to parse response'']\<rparr>"
    by (simp add: processResponse_def)
next
  fix v assume m: "match_json_block t = Some block" and p: "JSON_parse block = Inr v"
  obtain r where "block = 123 # r" using match_json_block_brace[OF m] by blast
  then obtain members where v: "v = JObject members" using JSON_parse_brace p by blast
  have "processResponse now t st =
                 st\<lparr>lastResponse := Some v, status := ''Analysis complete'',
                    history := \<lparr>role = Assistant,
                                 content = (case map_of (rev members) (js ''insight'') of
                                              None \<Rightarrow> JUndefined | Some x \<Rightarrow> x),
                                 timestamp = now\<rparr> # history st\<rparr>"
    using m p v by (simp add: processResponse_def insight_of_def)
  then show "\<exists>members. v = JObject members
             \<and> processResponse now t st =
                 st\<lparr>lastResponse := Some v, status := ''Analysis complete'',
                    history := \<lparr>role = Assistant,
                                 content = (case map_of (rev members) (js ''insight'') of
                                              None \<Rightarrow> JUndefined | Some x \<Rightarrow> x),
                                 timestamp = now\<rparr> # history st\<rparr>"
    using v by blast
qed

theorem extractor_span_handling_witness:
  "match_json_block (js ''say {x} now'') = Some (js ''{x}'')
   \<and> JSON_parse (js ''{x}'') = Inl SyntaxError
   \<and> processResponse 7 (js ''say {x} now'') initial_state =
       initial_state\<lparr>console := [''Failed to parse response'']\<rparr>
   \<and> match_json_block (js ''say {} now'') = Some (js ''{}'')
   \<and> JSON_parse (js ''{}'') = Inr (JObject [])
   \<and> processResponse 7 (js ''say {} now'') initial_state =
       initial_state\<lparr>lastResponse := Some (JObject []), status := ''Analysis complete'',
                    history := [\<lparr>role = Assistant, content = JUndefined, timestamp = 7\<rparr>]\<rparr>"
proof -
  have h: "match_json_block (js ''say {x} now'') = Some (js ''{x}'')"
    "JSON_parse (js ''{x}'') = Inl SyntaxError"
    "match_json_block (js ''say {} now'') = Some (js ''{}'')"
    "JSON_parse (js ''{}'') = Inr (JObject [])"
    by code_simp+
  have i: "console initial_state = []" "history initial_state = []"
    by (simp_all add: initial_state_def)
  show ?thesis
    using extractor_span_handling[of "js ''say {x} now''" "js ''{x}''" 7 initial_state]
      extractor_span_handling[of "js ''say {} now''" "js ''{}''" 7 initial_state] h i
    by simp
qed

text \<open>
  Claim C5, as stated, fails both ways: on the malformed span \<open>{x}\<close> no message is
  appended, and the span \<open>{}\<close>, which has none of the required fields, is emitted as
  the result with a message whose content is \<open>undefined\<close>.
\<close>

theorem malformed_span_is_dropped:
  "match_json_block (js ''say {x} now'') = Some (js ''{x}'')
   \<and> JSON_parse (js ''{x}'') = Inl SyntaxError
   \<and> history (processResponse 7 (js ''say {x} now'') initial_state) = []
   \<and> match_json_block (js ''say {} now'') = Some (js ''{}'')
   \<and> lastResponse (processResponse 7 (js ''say {} now'') initial_state) = Some (JObject [])
   \<and> history (processResponse 7 (js ''say {} now'') initial_state) =
       [\<lparr>role = Assistant, content = JUndefined, timestamp = 7\<rparr>]"
  by code_simp
end
